theory Spec2Isabelle
  imports Main
begin

section \<open>The matrix library of \<^verbatim>\<open>matrix.h\<close>\<close>

text \<open>
  The header declares a free function \<^verbatim>\<open>dot\<close> and a class template \<^verbatim>\<open>matrix<T>\<close>
  with two private fields: \<^verbatim>\<open>std::vector<std::vector<T>> _data\<close> and
  \<^verbatim>\<open>std::list<matrix<T>> _cache\<close>.
  The element type \<^verbatim>\<open>T\<close> is a type variable. \<^verbatim>\<open>T()\<close> is written \<open>0\<close>, \<^verbatim>\<open>operator+=\<close> is
  \<open>+\<close> and \<^verbatim>\<open>operator*\<close> is \<open>*\<close>; the sorts \<open>zero\<close>, \<open>plus\<close> and \<open>times\<close> carry no laws,
  so nothing below depends on associativity or on \<open>0\<close> being neutral.
  For a machine integer type they are that type's operations; the concrete examples below
  use \<open>int\<close> with small values. A \<^verbatim>\<open>size_t\<close> that holds a vector's size or an index below
  it is a \<open>nat\<close>.
\<close>

subsection \<open>Errors\<close>

text \<open>
  \<open>out_of_range\<close> is \<^verbatim>\<open>std::out_of_range\<close>: thrown by \<^verbatim>\<open>std::vector::at\<close> and by the first
  statement of \<^verbatim>\<open>multiply\<close>. \<open>invalid_dimension s1 s2\<close> is the exception class of that name,
  built from the two sizes. \<open>undefined_behaviour\<close> marks an unchecked
  \<^verbatim>\<open>std::vector::operator[]\<close> whose index is not below the size: the code has no check
  there and throws nothing.
\<close>

datatype error = out_of_range | invalid_dimension nat nat | undefined_behaviour

definition vec_at :: "'b list \<Rightarrow> nat \<Rightarrow> error + 'b" where
  "vec_at v i = (if i < length v then Inr (v ! i) else Inl out_of_range)"

definition vec_index :: "'b list \<Rightarrow> nat \<Rightarrow> error + 'b" where
  "vec_index v i = (if i < length v then Inr (v ! i) else Inl undefined_behaviour)"

subsection \<open>The class and its accessors\<close>

datatype 'a matrix = Matrix (data: "'a list list") (cache: "'a matrix list")

text \<open>The three constructors: default, \<^verbatim>\<open>(rows, cols, value)\<close>, and from given rows.\<close>

definition matrix_default :: "'a matrix" where
  "matrix_default = Matrix [] []"

definition matrix_fill :: "nat \<Rightarrow> nat \<Rightarrow> 'a \<Rightarrow> 'a matrix" where
  "matrix_fill r c v = Matrix (replicate r (replicate c v)) []"

definition matrix_of :: "'a list list \<Rightarrow> 'a matrix" where
  "matrix_of new_data = Matrix new_data []"

definition rows :: "'a matrix \<Rightarrow> nat" where
  "rows m = length (data m)"

definition cols :: "'a matrix \<Rightarrow> nat" where
  "cols m = (if length (data m) > 0 then length (data m ! 0) else 0)"

text \<open>\<^verbatim>\<open>operator[] const\<close>: \<^verbatim>\<open>return _data.at(i)\<close>.\<close>

definition at :: "'a matrix \<Rightarrow> nat \<Rightarrow> error + 'a list" where
  "at m i = vec_at (data m) i"

text \<open>
  \<^verbatim>\<open>operator[]\<close> (non-const): \<^verbatim>\<open>_cache.clear(); return _data[i]\<close>. The object after the
  call is the second component. The C++ returns a reference to the row; the model returns
  the row, and a write through the reference is \<open>write_row\<close> at the same index, which
  touches \<^verbatim>\<open>_data\<close> only.
\<close>

definition at_mut :: "'a matrix \<Rightarrow> nat \<Rightarrow> (error + 'a list) \<times> 'a matrix" where
  "at_mut m i = (vec_index (data m) i, Matrix (data m) [])"

definition write_row :: "'a matrix \<Rightarrow> nat \<Rightarrow> 'a list \<Rightarrow> 'a matrix" where
  "write_row m i r = Matrix ((data m)[i := r]) (cache m)"

text \<open>
  \<open>mutate_row m i f\<close>: take row \<open>i\<close> through the non-const accessor and rewrite it at once
  (\<open>f\<close> is what the caller does to the row). \<open>assign m i j v\<close> is the statement
  \<^verbatim>\<open>m[i][j] = v\<close>, whose second index is an unchecked \<^verbatim>\<open>std::vector::operator[]\<close>.
\<close>

definition mutate_row :: "'a matrix \<Rightarrow> nat \<Rightarrow> ('a list \<Rightarrow> 'a list) \<Rightarrow> error + 'a matrix" where
  "mutate_row m i f =
     (case at_mut m i of
        (Inl e, m') \<Rightarrow> Inl e
      | (Inr row, m') \<Rightarrow> Inr (write_row m' i (f row)))"

definition assign :: "'a matrix \<Rightarrow> nat \<Rightarrow> nat \<Rightarrow> 'a \<Rightarrow> error + 'a matrix" where
  "assign m i j v =
     (case at_mut m i of
        (Inl e, m') \<Rightarrow> Inl e
      | (Inr row, m') \<Rightarrow>
          (if j < length row then Inr (write_row m' i (row[j := v]))
           else Inl undefined_behaviour))"

subsection \<open>Transpose\<close>

text \<open>
  The two loops of \<^verbatim>\<open>transpose\<close>, over \<open>d\<close> = \<^verbatim>\<open>_data\<close> and the local \<^verbatim>\<open>m_T\<close>:
  \<^verbatim>\<open>for (i = 0; i < _data.at(0).size(); i++) for (j = 0; j < _data.size(); j++)
  m_T[i][j] = _data[j][i];\<close>
\<close>

function transpose_inner :: "'a list list \<Rightarrow> nat \<Rightarrow> nat \<Rightarrow> 'a matrix \<Rightarrow> error + 'a matrix" where
  "transpose_inner d i j m_T =
     (if j < length d then
        (case vec_index d j of
           Inl e \<Rightarrow> Inl e
         | Inr row \<Rightarrow>
             (case vec_index row i of
                Inl e \<Rightarrow> Inl e
              | Inr v \<Rightarrow>
                  (case assign m_T i j v of
                     Inl e \<Rightarrow> Inl e
                   | Inr m_T' \<Rightarrow> transpose_inner d i (Suc j) m_T')))
      else Inr m_T)"
  by pat_completeness auto
termination
  by (relation "measure (\<lambda>(d, i, j, m_T). length d - j)") auto

declare transpose_inner.simps [simp del]

function transpose_outer :: "'a list list \<Rightarrow> nat \<Rightarrow> 'a matrix \<Rightarrow> error + 'a matrix" where
  "transpose_outer d i m_T =
     (case vec_at d 0 of
        Inl e \<Rightarrow> Inl e
      | Inr row0 \<Rightarrow>
          (if i < length row0 then
             (case transpose_inner d i 0 m_T of
                Inl e \<Rightarrow> Inl e
              | Inr m_T' \<Rightarrow> transpose_outer d (Suc i) m_T')
           else Inr m_T))"
  by pat_completeness auto
termination
  by (relation "measure (\<lambda>(d, i, m_T). length (d ! 0) - i)") (auto simp: vec_at_def split: if_splits)

declare transpose_outer.simps [simp del]

text \<open>
  \<^verbatim>\<open>transpose\<close> returns a copy of a matrix and may push onto \<^verbatim>\<open>_cache\<close>: the result is the
  first component, the object afterwards the second.
\<close>

definition transpose_m :: "'a::zero matrix \<Rightarrow> (error + 'a matrix) \<times> 'a matrix" where
  "transpose_m m =
     (case cache m of
        c # cs \<Rightarrow> (Inr c, m)
      | [] \<Rightarrow>
          (if length (data m) > 0 then
             (case transpose_outer (data m) 0 (matrix_fill (cols m) (rows m) 0) of
                Inl e \<Rightarrow> (Inl e, m)
              | Inr m_T \<Rightarrow> (Inr m_T, Matrix (data m) (m_T # cache m)))
           else (Inr m, m)))"

subsection \<open>Dot product and multiplication\<close>

text \<open>
  \<^verbatim>\<open>dot\<close>: the size check, then \<^verbatim>\<open>result = T()\<close> and
  \<^verbatim>\<open>for (i = 0; i < v1.size(); i++) result += v1.at(i) * v2.at(i);\<close>
\<close>

function dot_loop :: "'a::{plus,times} list \<Rightarrow> 'a list \<Rightarrow> nat \<Rightarrow> 'a \<Rightarrow> error + 'a" where
  "dot_loop v1 v2 i result =
     (if i < length v1 then
        (case vec_at v1 i of
           Inl e \<Rightarrow> Inl e
         | Inr a \<Rightarrow>
             (case vec_at v2 i of
                Inl e \<Rightarrow> Inl e
              | Inr b \<Rightarrow> dot_loop v1 v2 (Suc i) (result + a * b)))
      else Inr result)"
  by pat_completeness auto
termination
  by (relation "measure (\<lambda>(v1, v2, i, result). length v1 - i)") auto

declare dot_loop.simps [simp del]

definition dot :: "'a::{zero,plus,times} list \<Rightarrow> 'a list \<Rightarrow> error + 'a" where
  "dot v1 v2 =
     (if length v1 \<noteq> length v2 then Inl (invalid_dimension (length v1) (length v2))
      else dot_loop v1 v2 0 0)"

text \<open>
  \<^verbatim>\<open>multiply\<close> takes both operands by non-const reference. The model passes the two
  objects and the local \<^verbatim>\<open>result\<close> through the loops and returns them with the outcome;
  here \<open>m1\<close> and \<open>m2\<close> are two different objects (a call with one object for both is
  \<open>multiply_refs\<close> below). \<open>multiply_step\<close> is the loop body
  \<^verbatim>\<open>result[i][j] = dot(m1[i], m2.transpose()[j])\<close>: \<^verbatim>\<open>m1[i]\<close> and \<^verbatim>\<open>result[i]\<close> are the
  non-const accessor, and so is the \<^verbatim>\<open>[j]\<close> on the temporary that \<^verbatim>\<open>transpose\<close> returns.
  The C++ leaves the order of the two argument evaluations open; they act on different
  objects, so the outcome is the same in either order.
\<close>

definition multiply_step ::
  "nat \<Rightarrow> nat \<Rightarrow> 'a::{zero,plus,times} matrix \<Rightarrow> 'a matrix \<Rightarrow> 'a matrix \<Rightarrow>
     error option \<times> 'a matrix \<times> 'a matrix \<times> 'a matrix" where
  "multiply_step i j m1 m2 result =
     (case at_mut m1 i of
        (Inl e, m1') \<Rightarrow> (Some e, m1', m2, result)
      | (Inr v1, m1') \<Rightarrow>
          (case transpose_m m2 of
             (Inl e, m2') \<Rightarrow> (Some e, m1', m2', result)
           | (Inr t, m2') \<Rightarrow>
               (case at_mut t j of
                  (Inl e, t') \<Rightarrow> (Some e, m1', m2', result)
                | (Inr v2, t') \<Rightarrow>
                    (case dot v1 v2 of
                       Inl e \<Rightarrow> (Some e, m1', m2', result)
                     | Inr x \<Rightarrow>
                         (case assign result i j x of
                            Inl e \<Rightarrow> (Some e, m1', m2', result)
                          | Inr result' \<Rightarrow> (None, m1', m2', result'))))))"

lemma transpose_m_data: "data (snd (transpose_m m)) = data m"
  by (simp add: transpose_m_def split: list.split sum.split)

lemma multiply_step_data:
  "multiply_step i j m1 m2 result = (r, m1', m2', result') \<Longrightarrow>
     data m1' = data m1 \<and> data m2' = data m2"
  using transpose_m_data[of m2]
  by (auto simp: multiply_step_def at_mut_def split: sum.splits prod.splits)

function multiply_inner ::
  "nat \<Rightarrow> nat \<Rightarrow> 'a::{zero,plus,times} matrix \<Rightarrow> 'a matrix \<Rightarrow> 'a matrix \<Rightarrow>
     error option \<times> 'a matrix \<times> 'a matrix \<times> 'a matrix" where
  "multiply_inner i j m1 m2 result =
     (if j < cols m2 then
        (case multiply_step i j m1 m2 result of
           (Some e, s) \<Rightarrow> (Some e, s)
         | (None, m1', m2', result') \<Rightarrow> multiply_inner i (Suc j) m1' m2' result')
      else (None, m1, m2, result))"
  by pat_completeness auto
termination
proof (relation "measure (\<lambda>(i, j, m1, m2, result). cols m2 - j)")
  show "wf (measure (\<lambda>(i, j, m1, m2, result). cols m2 - j))" by simp
next
  fix i j :: nat and m1 m2 result :: "'a matrix" and x y xa ya xb yb
  assume "j < cols m2" "(x, y) = multiply_step i j m1 m2 result" "x = None"
    "(xa, ya) = y" "(xb, yb) = ya"
  then have "multiply_step i j m1 m2 result = (None, xa, xb, yb)" by simp
  from multiply_step_data[OF this] have "cols xb = cols m2" by (simp add: cols_def)
  with \<open>j < cols m2\<close>
  show "((i, Suc j, xa, xb, yb), i, j, m1, m2, result) \<in> measure (\<lambda>(i, j, m1, m2, result). cols m2 - j)"
    by simp
qed

declare multiply_inner.simps [simp del]

lemma multiply_inner_data:
  "multiply_inner i j m1 m2 result = (r, m1', m2', result') \<Longrightarrow>
     data m1' = data m1 \<and> data m2' = data m2"
proof (induction i j m1 m2 result rule: multiply_inner.induct)
  case (1 i j m1 m2 result)
  show ?case
  proof (cases "j < cols m2")
    case False
    with 1(2) show ?thesis by (simp add: multiply_inner.simps[of i j m1 m2 result])
  next
    case True
    obtain e a b c where st: "multiply_step i j m1 m2 result = (e, a, b, c)"
      by (cases "multiply_step i j m1 m2 result") auto
    note d = multiply_step_data[OF st]
    show ?thesis
    proof (cases e)
      case (Some err)
      with 1(2) True st d show ?thesis by (simp add: multiply_inner.simps[of i j m1 m2 result])
    next
      case None
      with 1(2) True st have "multiply_inner i (Suc j) a b c = (r, m1', m2', result')"
        by (simp add: multiply_inner.simps[of i j m1 m2 result])
      from 1(1)[OF True st[symmetric] None refl refl this] d show ?thesis by simp
    qed
  qed
qed

function multiply_outer ::
  "nat \<Rightarrow> 'a::{zero,plus,times} matrix \<Rightarrow> 'a matrix \<Rightarrow> 'a matrix \<Rightarrow>
     error option \<times> 'a matrix \<times> 'a matrix \<times> 'a matrix" where
  "multiply_outer i m1 m2 result =
     (if i < rows m1 then
        (case multiply_inner i 0 m1 m2 result of
           (Some e, s) \<Rightarrow> (Some e, s)
         | (None, m1', m2', result') \<Rightarrow> multiply_outer (Suc i) m1' m2' result')
      else (None, m1, m2, result))"
  by pat_completeness auto
termination
proof (relation "measure (\<lambda>(i, m1, m2, result). rows m1 - i)")
  show "wf (measure (\<lambda>(i, m1, m2, result). rows m1 - i))" by simp
next
  fix i :: nat and m1 m2 result :: "'a matrix" and x y xa ya xb yb
  assume "i < rows m1" "(x, y) = multiply_inner i 0 m1 m2 result" "x = None"
    "(xa, ya) = y" "(xb, yb) = ya"
  then have "multiply_inner i 0 m1 m2 result = (None, xa, xb, yb)" by simp
  from multiply_inner_data[OF this] have "rows xa = rows m1" by (simp add: rows_def)
  with \<open>i < rows m1\<close>
  show "((Suc i, xa, xb, yb), i, m1, m2, result) \<in> measure (\<lambda>(i, m1, m2, result). rows m1 - i)"
    by simp
qed

declare multiply_outer.simps [simp del]

definition multiply ::
  "'a::{zero,plus,times} matrix \<Rightarrow> 'a matrix \<Rightarrow> (error + 'a matrix) \<times> 'a matrix \<times> 'a matrix" where
  "multiply m1 m2 =
     (if rows m1 = 0 \<or> rows m2 = 0 then (Inl out_of_range, m1, m2)
      else
        (case multiply_outer 0 m1 m2 (matrix_fill (rows m1) (cols m2) 0) of
           (Some e, m1', m2', result) \<Rightarrow> (Inl e, m1', m2')
         | (None, m1', m2', result) \<Rightarrow> (Inr result, m1', m2')))"

text \<open>The member \<^verbatim>\<open>multiply(other)\<close> and \<^verbatim>\<open>operator*\<close> both return \<^verbatim>\<open>multiply(*this, other)\<close>.\<close>

definition operator_mul ::
  "'a::{zero,plus,times} matrix \<Rightarrow> 'a matrix \<Rightarrow> (error + 'a matrix) \<times> 'a matrix \<times> 'a matrix" where
  "operator_mul m other = multiply m other"

text \<open>
  Both parameters of \<^verbatim>\<open>multiply\<close> are references, and a caller may pass one object twice
  (\<^verbatim>\<open>m * m\<close>). \<open>multiply_refs\<close> is \<^verbatim>\<open>multiply\<close> over a store of objects: \<open>p\<close> and \<open>q\<close> are
  the objects that \<^verbatim>\<open>m1\<close> and \<^verbatim>\<open>m2\<close> refer to, equal when the two are one object. The C++
  leaves open which argument of \<^verbatim>\<open>dot\<close> is evaluated first; \<open>ord\<close> is that order: with
  \<open>m1_first\<close>, \<^verbatim>\<open>m1[i]\<close> and then \<^verbatim>\<open>m2.transpose()\<close>; with \<open>transpose_first\<close>, the other way
  round. \<open>dot_assign\<close> is the rest of the statement: \<^verbatim>\<open>[j]\<close> on the temporary, \<^verbatim>\<open>dot\<close>, and
  the assignment to \<^verbatim>\<open>result[i][j]\<close>. The row that \<^verbatim>\<open>m1[i]\<close> refers to is read when \<^verbatim>\<open>dot\<close>
  runs; no step in between writes \<^verbatim>\<open>_data\<close>. For two different objects \<open>multiply_refs\<close> and
  \<open>multiply\<close> agree (\<open>multiply_refs_distinct\<close> below). \<open>store2 a b\<close> is the store with the
  object \<open>a\<close> at reference 0 and \<open>b\<close> at every other.
\<close>

datatype arg_order = m1_first | transpose_first

type_synonym 'a store = "nat \<Rightarrow> 'a matrix"

definition dot_assign ::
  "'a::{zero,plus,times} list \<Rightarrow> 'a matrix \<Rightarrow> nat \<Rightarrow> nat \<Rightarrow> 'a matrix \<Rightarrow> error + 'a matrix" where
  "dot_assign v1 t i j result =
     (case at_mut t j of
        (Inl e, t') \<Rightarrow> Inl e
      | (Inr v2, t') \<Rightarrow>
          (case dot v1 v2 of
             Inl e \<Rightarrow> Inl e
           | Inr x \<Rightarrow> assign result i j x))"

definition multiply_step_refs ::
  "arg_order \<Rightarrow> nat \<Rightarrow> nat \<Rightarrow> 'a::{zero,plus,times} store \<Rightarrow> nat \<Rightarrow> nat \<Rightarrow> 'a matrix \<Rightarrow>
     error option \<times> 'a store \<times> 'a matrix" where
  "multiply_step_refs ord i j s p q result =
     (case ord of
        m1_first \<Rightarrow>
          (case at_mut (s p) i of
             (Inl e, m1') \<Rightarrow> (Some e, s(p := m1'), result)
           | (Inr v1, m1') \<Rightarrow>
               (case transpose_m ((s(p := m1')) q) of
                  (Inl e, m2') \<Rightarrow> (Some e, (s(p := m1'))(q := m2'), result)
                | (Inr t, m2') \<Rightarrow>
                    (case dot_assign v1 t i j result of
                       Inl e \<Rightarrow> (Some e, (s(p := m1'))(q := m2'), result)
                     | Inr result' \<Rightarrow> (None, (s(p := m1'))(q := m2'), result'))))
      | transpose_first \<Rightarrow>
          (case transpose_m (s q) of
             (Inl e, m2') \<Rightarrow> (Some e, s(q := m2'), result)
           | (Inr t, m2') \<Rightarrow>
               (case at_mut ((s(q := m2')) p) i of
                  (Inl e, m1') \<Rightarrow> (Some e, (s(q := m2'))(p := m1'), result)
                | (Inr v1, m1') \<Rightarrow>
                    (case dot_assign v1 t i j result of
                       Inl e \<Rightarrow> (Some e, (s(q := m2'))(p := m1'), result)
                     | Inr result' \<Rightarrow> (None, (s(q := m2'))(p := m1'), result')))))"

lemma at_mut_data: "data (snd (at_mut m i)) = data m"
  by (simp add: at_mut_def)

lemma multiply_step_refs_data:
  assumes "multiply_step_refs ord i j s p q result = (r, s', result')"
  shows "data (s' x) = data (s x)"
proof (cases ord)
  case m1_first
  obtain r1 a where am: "at_mut (s p) i = (r1, a)" by (cases "at_mut (s p) i") auto
  have da: "data a = data (s p)" using at_mut_data[of "s p" i] am by simp
  obtain r2 b where tr: "transpose_m ((s(p := a)) q) = (r2, b)"
    by (cases "transpose_m ((s(p := a)) q)") auto
  have db: "data b = data ((s(p := a)) q)" using transpose_m_data[of "(s(p := a)) q"] tr by simp
  have "s' = s(p := a) \<or> s' = (s(p := a))(q := b)"
    using assms m1_first am tr
    by (auto simp: multiply_step_refs_def split: sum.splits)
  with da db show ?thesis by (auto simp: fun_upd_def)
next
  case transpose_first
  obtain r2 b where tr: "transpose_m (s q) = (r2, b)" by (cases "transpose_m (s q)") auto
  have db: "data b = data (s q)" using transpose_m_data[of "s q"] tr by simp
  obtain r1 a where am: "at_mut ((s(q := b)) p) i = (r1, a)"
    by (cases "at_mut ((s(q := b)) p) i") auto
  have da: "data a = data ((s(q := b)) p)" using at_mut_data[of "(s(q := b)) p" i] am by simp
  have "s' = s(q := b) \<or> s' = (s(q := b))(p := a)"
    using assms transpose_first am tr
    by (auto simp: multiply_step_refs_def split: sum.splits)
  with da db show ?thesis by (auto simp: fun_upd_def)
qed

function multiply_inner_refs ::
  "arg_order \<Rightarrow> nat \<Rightarrow> nat \<Rightarrow> 'a::{zero,plus,times} store \<Rightarrow> nat \<Rightarrow> nat \<Rightarrow> 'a matrix \<Rightarrow>
     error option \<times> 'a store \<times> 'a matrix" where
  "multiply_inner_refs ord i j s p q result =
     (if j < cols (s q) then
        (case multiply_step_refs ord i j s p q result of
           (Some e, x) \<Rightarrow> (Some e, x)
         | (None, s', result') \<Rightarrow> multiply_inner_refs ord i (Suc j) s' p q result')
      else (None, s, result))"
  by pat_completeness auto
termination
proof (relation "measure (\<lambda>(ord, i, j, s, p, q, result). cols (s q) - j)")
  show "wf (measure (\<lambda>(ord, i, j, s, p, q, result). cols (s q) - j))" by simp
next
  fix i j :: nat and s :: "'a store" and p q :: nat and result :: "'a matrix"
    and x y xa ya and ord :: arg_order
  assume "j < cols (s q)" "(x, y) = multiply_step_refs ord i j s p q result" "x = None"
    "(xa, ya) = y"
  then have "multiply_step_refs ord i j s p q result = (None, xa, ya)" by simp
  from multiply_step_refs_data[OF this, of q] have "cols (xa q) = cols (s q)"
    by (simp add: cols_def)
  with \<open>j < cols (s q)\<close>
  show "((ord, i, Suc j, xa, p, q, ya), ord, i, j, s, p, q, result)
          \<in> measure (\<lambda>(ord, i, j, s, p, q, result). cols (s q) - j)"
    by simp
qed

declare multiply_inner_refs.simps [simp del]

lemma multiply_inner_refs_step:
  "j < cols (s q) \<Longrightarrow> multiply_inner_refs ord i j s p q result =
     (case multiply_step_refs ord i j s p q result of
        (Some e, x) \<Rightarrow> (Some e, x)
      | (None, s', result') \<Rightarrow> multiply_inner_refs ord i (Suc j) s' p q result')"
  by (subst multiply_inner_refs.simps) simp

lemma multiply_inner_refs_done:
  "\<not> j < cols (s q) \<Longrightarrow> multiply_inner_refs ord i j s p q result = (None, s, result)"
  by (subst multiply_inner_refs.simps) simp

lemma multiply_inner_refs_rule:
  assumes "\<And>i j s res r s' res'.
      I s res \<Longrightarrow> i < rows (s p) \<Longrightarrow> j < cols (s q) \<Longrightarrow>
      multiply_step_refs ord i j s p q res = (r, s', res') \<Longrightarrow>
      I s' res' \<and> rows (s' p) = rows (s p) \<and> P r s' res'"
    and "I s res" and "i < rows (s p)"
    and "multiply_inner_refs ord i j s p q res = (r, s', res')"
  shows "(I s' res' \<and> rows (s' p) = rows (s p) \<and> P r s' res') \<or>
         (\<not> j < cols (s q) \<and> r = None \<and> s' = s \<and> res' = res)"
  using assms
proof (induction ord i j s p q res rule: multiply_inner_refs.induct)
  case (1 ord i j s p q res)
  note step = "1.prems"(1)
  show ?case
  proof (cases "j < cols (s q)")
    case False
    with "1.prems"(4) show ?thesis by (simp add: multiply_inner_refs_done)
  next
    case True
    obtain r1 a c where st: "multiply_step_refs ord i j s p q res = (r1, a, c)"
      by (cases "multiply_step_refs ord i j s p q res") auto
    from step[OF "1.prems"(2,3) True st]
    have s1: "I a c" "rows (a p) = rows (s p)" "P r1 a c" by simp_all
    show ?thesis
    proof (cases r1)
      case (Some e)
      with "1.prems"(4) True st s1 show ?thesis by (simp add: multiply_inner_refs_step)
    next
      case None
      with "1.prems"(4) True st
      have rec: "multiply_inner_refs ord i (Suc j) a p q c = (r, s', res')"
        by (simp add: multiply_inner_refs_step)
      have ia: "i < rows (a p)" using s1(2) "1.prems"(3) by simp
      have "(I s' res' \<and> rows (s' p) = rows (a p) \<and> P r s' res') \<or>
         (\<not> Suc j < cols (a q) \<and> r = None \<and> s' = a \<and> res' = c)"
        apply (rule "1.IH"[OF True st[symmetric] None refl])
           apply (rule step; assumption)
          apply (rule s1(1))
         apply (rule ia)
        apply (rule rec)
        done
      with s1 None show ?thesis by auto
    qed
  qed
qed

lemma multiply_inner_refs_data:
  assumes "multiply_inner_refs ord i j s p q res = (r, s', res')" and "i < rows (s p)"
  shows "data (s' x) = data (s x)"
proof -
  have "((\<forall>x. data (s' x) = data (s x)) \<and> rows (s' p) = rows (s p) \<and> True) \<or>
         (\<not> j < cols (s q) \<and> r = None \<and> s' = s \<and> res' = res)"
  proof (rule multiply_inner_refs_rule[where I="\<lambda>a c. \<forall>x. data (a x) = data (s x)"
        and P="\<lambda>r a c. True", OF _ _ assms(2,1)])
    fix i j and sa :: "'a store" and res r sa' res'
    assume I: "\<forall>x. data (sa x) = data (s x)"
      and st: "multiply_step_refs ord i j sa p q res = (r, sa', res')"
    show "(\<forall>x. data (sa' x) = data (s x)) \<and> rows (sa' p) = rows (sa p) \<and> True"
      using multiply_step_refs_data[OF st] I by (simp add: rows_def)
  qed simp
  then show ?thesis by auto
qed

function multiply_outer_refs ::
  "arg_order \<Rightarrow> nat \<Rightarrow> 'a::{zero,plus,times} store \<Rightarrow> nat \<Rightarrow> nat \<Rightarrow> 'a matrix \<Rightarrow>
     error option \<times> 'a store \<times> 'a matrix" where
  "multiply_outer_refs ord i s p q result =
     (if i < rows (s p) then
        (case multiply_inner_refs ord i 0 s p q result of
           (Some e, x) \<Rightarrow> (Some e, x)
         | (None, s', result') \<Rightarrow> multiply_outer_refs ord (Suc i) s' p q result')
      else (None, s, result))"
  by pat_completeness auto
termination
proof (relation "measure (\<lambda>(ord, i, s, p, q, result). rows (s p) - i)")
  show "wf (measure (\<lambda>(ord, i, s, p, q, result). rows (s p) - i))" by simp
next
  fix i :: nat and s :: "'a store" and p q :: nat and result :: "'a matrix"
    and x y xa ya and ord :: arg_order
  assume i: "i < rows (s p)" and "(x, y) = multiply_inner_refs ord i 0 s p q result" "x = None"
    "(xa, ya) = y"
  then have "multiply_inner_refs ord i 0 s p q result = (None, xa, ya)" by simp
  from multiply_inner_refs_data[OF this i, of p] have "rows (xa p) = rows (s p)"
    by (simp add: rows_def)
  with i
  show "((ord, Suc i, xa, p, q, ya), ord, i, s, p, q, result)
          \<in> measure (\<lambda>(ord, i, s, p, q, result). rows (s p) - i)"
    by simp
qed

declare multiply_outer_refs.simps [simp del]

definition multiply_refs ::
  "arg_order \<Rightarrow> 'a::{zero,plus,times} store \<Rightarrow> nat \<Rightarrow> nat \<Rightarrow> (error + 'a matrix) \<times> 'a store" where
  "multiply_refs ord s p q =
     (if rows (s p) = 0 \<or> rows (s q) = 0 then (Inl out_of_range, s)
      else
        (case multiply_outer_refs ord 0 s p q (matrix_fill (rows (s p)) (cols (s q)) 0) of
           (Some e, s', result) \<Rightarrow> (Inl e, s')
         | (None, s', result) \<Rightarrow> (Inr result, s')))"

definition store2 :: "'a matrix \<Rightarrow> 'a matrix \<Rightarrow> 'a store" where
  "store2 a b = (\<lambda>r. if r = 0 then a else b)"

subsection \<open>Comparison\<close>

text \<open>
  \<^verbatim>\<open>operator!=\<close>: the shape test, then
  \<^verbatim>\<open>for (i = 0; i < rows(); i++) for (j = 0; j < cols(); j++)
  if (_data[i][j] != rhs[i][j]) return true;\<close> and \<^verbatim>\<open>return false\<close>.
  \<^verbatim>\<open>rhs\<close> is a const reference, so \<^verbatim>\<open>rhs[i]\<close> is the checked \<open>at\<close>; every other index is an
  unchecked \<^verbatim>\<open>std::vector::operator[]\<close>. The operator is a non-const member: the second
  component of \<open>operator_neq\<close> is the left operand afterwards. The \<^verbatim>\<open>!=\<close> of \<^verbatim>\<open>T\<close> on two
  elements is \<open>\<noteq>\<close>.
\<close>

function neq_inner :: "'a matrix \<Rightarrow> 'a matrix \<Rightarrow> nat \<Rightarrow> nat \<Rightarrow> error + bool" where
  "neq_inner lhs rhs i j =
     (if j < cols lhs then
        (case vec_index (data lhs) i of
           Inl e \<Rightarrow> Inl e
         | Inr row \<Rightarrow>
             (case vec_index row j of
                Inl e \<Rightarrow> Inl e
              | Inr a \<Rightarrow>
                  (case at rhs i of
                     Inl e \<Rightarrow> Inl e
                   | Inr rrow \<Rightarrow>
                       (case vec_index rrow j of
                          Inl e \<Rightarrow> Inl e
                        | Inr b \<Rightarrow>
                            (if a \<noteq> b then Inr True
                             else neq_inner lhs rhs i (Suc j))))))
      else Inr False)"
  by pat_completeness auto
termination
  by (relation "measure (\<lambda>(lhs, rhs, i, j). cols lhs - j)") auto

declare neq_inner.simps [simp del]

function neq_outer :: "'a matrix \<Rightarrow> 'a matrix \<Rightarrow> nat \<Rightarrow> error + bool" where
  "neq_outer lhs rhs i =
     (if i < rows lhs then
        (case neq_inner lhs rhs i 0 of
           Inl e \<Rightarrow> Inl e
         | Inr found \<Rightarrow> (if found then Inr True else neq_outer lhs rhs (Suc i)))
      else Inr False)"
  by pat_completeness auto
termination
  by (relation "measure (\<lambda>(lhs, rhs, i). rows lhs - i)") auto

declare neq_outer.simps [simp del]

definition operator_neq :: "'a matrix \<Rightarrow> 'a matrix \<Rightarrow> (error + bool) \<times> 'a matrix" where
  "operator_neq lhs rhs =
     (if rows lhs \<noteq> rows rhs \<or> cols lhs \<noteq> cols rhs then (Inr True, lhs)
      else (neq_outer lhs rhs 0, lhs))"

text \<open>\<^verbatim>\<open>operator==\<close>: \<^verbatim>\<open>return !(*this != rhs)\<close>.\<close>

definition operator_eq :: "'a matrix \<Rightarrow> 'a matrix \<Rightarrow> (error + bool) \<times> 'a matrix" where
  "operator_eq lhs rhs =
     (case operator_neq lhs rhs of
        (Inl e, lhs') \<Rightarrow> (Inl e, lhs')
      | (Inr b, lhs') \<Rightarrow> (Inr (\<not> b), lhs'))"

subsection \<open>Printing\<close>

text \<open>
  \<^verbatim>\<open>print\<close>: \<^verbatim>\<open>for (auto row : _data) { for (auto item : row) out << item << " ";
  out << std::endl; }\<close>. The stream is the text written so far; \<open>shw\<close> is what
  \<^verbatim>\<open>operator<<\<close> writes for an element, and \<^verbatim>\<open>std::endl\<close> writes a newline.
\<close>

definition endl :: string where
  "endl = [CHR 0x0A]"

fun print_row :: "('a \<Rightarrow> string) \<Rightarrow> 'a list \<Rightarrow> string \<Rightarrow> string" where
  "print_row shw [] out = out"
| "print_row shw (item # row) out = print_row shw row (out @ shw item @ '' '')"

fun print_rows :: "('a \<Rightarrow> string) \<Rightarrow> 'a list list \<Rightarrow> string \<Rightarrow> string" where
  "print_rows shw [] out = out"
| "print_rows shw (row # rest) out = print_rows shw rest (print_row shw row out @ endl)"

definition print :: "('a \<Rightarrow> string) \<Rightarrow> 'a matrix \<Rightarrow> string \<Rightarrow> string" where
  "print shw m out = print_rows shw (data m) out"

subsection \<open>Notions of the specification\<close>

text \<open>
  A matrix is rectangular when every row has the length of the first. \<open>transpose_of\<close> is
  the transpose of a list of rows as mathematics has it: one row per index of the first
  row. \<open>cache_fresh\<close> is the invariant of \<^verbatim>\<open>_cache\<close>: it is empty, or \<^verbatim>\<open>_data\<close> has a row
  and the cache holds exactly one matrix, the transpose of \<^verbatim>\<open>_data\<close>, whose own cache is
  empty. \<open>dot_sum\<close> is the sum, in index order and starting from \<open>0\<close>, of the products
  \<open>v1[k] * v2[k]\<close>; \<open>entry d1 d2 i j\<close> is that sum for row \<open>i\<close> of \<open>d1\<close> and column \<open>j\<close> of \<open>d2\<close>.
\<close>

definition rectangular :: "'a matrix \<Rightarrow> bool" where
  "rectangular m = (\<forall>row\<in>set (data m). length row = cols m)"

definition transpose_of :: "'a list list \<Rightarrow> 'a list list" where
  "transpose_of d =
     (case d of [] \<Rightarrow> [] | row0 # rest \<Rightarrow> map (\<lambda>i. map (\<lambda>row. row ! i) d) [0..<length row0])"

definition cache_fresh :: "'a matrix \<Rightarrow> bool" where
  "cache_fresh m =
     (case cache m of
        [] \<Rightarrow> True
      | c # cs \<Rightarrow> cs = [] \<and> data m \<noteq> [] \<and> c = Matrix (transpose_of (data m)) [])"

definition dot_sum :: "'a::{zero,plus,times} list \<Rightarrow> 'a list \<Rightarrow> 'a" where
  "dot_sum v1 v2 = foldl (\<lambda>acc k. acc + v1 ! k * v2 ! k) 0 [0..<length v1]"

definition entry :: "'a::{zero,plus,times} list list \<Rightarrow> 'a list list \<Rightarrow> nat \<Rightarrow> nat \<Rightarrow> 'a" where
  "entry d1 d2 i j = dot_sum (d1 ! i) (map (\<lambda>row. row ! j) d2)"

text \<open>
  The output the specification describes for printing: the elements of a row with one space
  between neighbours, and a line terminator after each row.
\<close>

fun separated :: "string list \<Rightarrow> string" where
  "separated [] = []"
| "separated [x] = x"
| "separated (x # y # ys) = x @ '' '' @ separated (y # ys)"

definition print_spec :: "('a \<Rightarrow> string) \<Rightarrow> 'a matrix \<Rightarrow> string \<Rightarrow> string" where
  "print_spec shw m out = out @ concat (map (\<lambda>row. separated (map shw row) @ endl) (data m))"

section \<open>Properties\<close>

subsection \<open>The transpose loops\<close>

lemma assign_ok:
  "i < length (data m) \<Longrightarrow> j < length (data m ! i) \<Longrightarrow>
   assign m i j v = Inr (Matrix ((data m)[i := (data m ! i)[j := v]]) [])"
  by (simp add: assign_def at_mut_def vec_index_def write_row_def)

lemma take_Suc_update: "j < length r \<Longrightarrow> take (Suc j) (r[j := v]) = take j r @ [v]"
  by (simp add: take_Suc_conv_app_nth)

lemma transpose_inner_ok:
  assumes "\<forall>row\<in>set d. i < length row" "i < length (data m_T)" 
     "length (data m_T ! i) = length d" "cache m_T = []"
  shows "transpose_inner d i j m_T =
     Inr (Matrix ((data m_T)[i := take j (data m_T ! i) @ map (\<lambda>j'. d ! j' ! i) [j..<length d]]) [])"
  using assms
proof (induction d i j m_T rule: transpose_inner.induct)
  case (1 d i j m_T)
  show ?case
  proof (cases "j < length d")
    case False
    with 1(2-) show ?thesis
      by (cases m_T) (simp add: list_update_same_conv transpose_inner.simps[of d i j])
  next
    case True
    have di: "i < length (d ! j)" using True 1(2) by simp
    let ?m' = "Matrix ((data m_T)[i := (data m_T ! i)[j := d ! j ! i]]) []"
    have a: "assign m_T i j (d ! j ! i) = Inr ?m'"
      using assign_ok[of i m_T j] 1(3,4) True by simp
    have ih: "transpose_inner d i (Suc j) ?m' = 
       Inr (Matrix ((data ?m')[i := take (Suc j) (data ?m' ! i) @ map (\<lambda>j'. d ! j' ! i) [Suc j..<length d]]) [])"
      using 1(1)[OF True _ _ a] True di 1(2-) by (simp add: vec_index_def)
    show ?thesis
      using True di a ih 1(3,4)
      by (subst transpose_inner.simps) (simp add: vec_index_def take_Suc_update upt_conv_Cons)
  qed
qed

lemma map_index_conv: "map (\<lambda>j. f (d ! j)) [0..<length d] = map f d"
  by (rule nth_equalityI) simp_all

lemma transpose_outer_ok:
  assumes "d \<noteq> []" "\<forall>row\<in>set d. length (d ! 0) \<le> length row"
    "length (data m_T) = length (d ! 0)"
    "\<forall>k<length (data m_T). length (data m_T ! k) = length d" "cache m_T = []"
  shows "transpose_outer d i m_T =
     Inr (Matrix (take i (data m_T) @
            map (\<lambda>i'. map (\<lambda>j'. d ! j' ! i') [0..<length d]) [i..<length (d ! 0)]) [])"
  using assms
proof (induction d i m_T rule: transpose_outer.induct)
  case (1 d i m_T)
  have at0: "vec_at d 0 = Inr (d ! 0)" using 1(2) by (simp add: vec_at_def)
  show ?case
  proof (cases "i < length (d ! 0)")
    case False
    with 1(2-) at0 show ?thesis
      by (cases m_T) (simp add: transpose_outer.simps[of d i])
  next
    case True
    let ?row = "map (\<lambda>j'. d ! j' ! i) [0..<length d]"
    let ?m' = "Matrix ((data m_T)[i := ?row]) []"
    have inner: "transpose_inner d i 0 m_T = Inr ?m'"
      using transpose_inner_ok[of d i m_T 0] True 1(3-) by fastforce
    have ih: "transpose_outer d (Suc i) ?m' =
       Inr (Matrix (take (Suc i) (data ?m') @
            map (\<lambda>i'. map (\<lambda>j'. d ! j' ! i') [0..<length d]) [Suc i..<length (d ! 0)]) [])"
      using 1(1)[OF at0 True inner] 1(2-) True by (simp add: nth_list_update)
    have tk: "take (Suc i) ((data m_T)[i := ?row]) = take i (data m_T) @ [?row]"
      using True 1(4) by (simp add: take_Suc_update)
    show ?thesis
      using True at0 inner ih tk
      by (subst transpose_outer.simps) (simp add: upt_conv_Cons)
  qed
qed

lemma transpose_of_nonempty:
  assumes "d \<noteq> []"
  shows "transpose_of d = map (\<lambda>i. map (\<lambda>j. d ! j ! i) [0..<length d]) [0..<length (d ! 0)]"
proof -
  have col: "map (\<lambda>row. row ! i) d = map (\<lambda>j. d ! j ! i) [0..<length d]" for i
    by (rule map_index_conv[symmetric])
  have "transpose_of d = map (\<lambda>i. map (\<lambda>row. row ! i) d) [0..<length (d ! 0)]"
    using assms by (cases d) (simp_all add: transpose_of_def)
  then show ?thesis by (simp only: col)
qed

lemma transpose_m_miss:
  assumes "cache m = []" "data m \<noteq> []" "\<forall>row\<in>set (data m). length (data m ! 0) \<le> length row"
  shows "transpose_m m =
    (Inr (Matrix (transpose_of (data m)) []), Matrix (data m) [Matrix (transpose_of (data m)) []])"
proof -
  have "transpose_outer (data m) 0 (matrix_fill (cols m) (rows m) 0) =
     Inr (Matrix (map (\<lambda>i'. map (\<lambda>j'. data m ! j' ! i') [0..<length (data m)]) [0..<length (data m ! 0)]) [])"
    using transpose_outer_ok[of "data m" "matrix_fill (cols m) (rows m) 0" 0] assms
    by (simp add: matrix_fill_def cols_def rows_def)
  then show ?thesis using assms(1,2)
    by (simp add: transpose_m_def transpose_of_nonempty)
qed

lemma rectangular_row: "rectangular m \<Longrightarrow> i < rows m \<Longrightarrow> length (data m ! i) = cols m"
  by (simp add: rectangular_def rows_def)

lemma cols_nonempty: "data m \<noteq> [] \<Longrightarrow> cols m = length (data m ! 0)"
  by (simp add: cols_def)

lemma rectangular_ge:
  assumes "rectangular m"
  shows "\<forall>row\<in>set (data m). length (data m ! 0) \<le> length row"
proof
  fix row assume r: "row \<in> set (data m)"
  then have "data m \<noteq> []" by auto
  then have "cols m = length (data m ! 0)" by (rule cols_nonempty)
  moreover have "length row = cols m" using assms r by (simp add: rectangular_def)
  ultimately show "length (data m ! 0) \<le> length row" by simp
qed

lemma transpose_m_fst:
  assumes "rectangular m" "cache_fresh m"
  shows "fst (transpose_m m) = Inr (Matrix (transpose_of (data m)) [])"
proof (cases "cache m")
  case (Cons c cs)
  with assms(2) show ?thesis by (simp add: transpose_m_def cache_fresh_def)
next
  case Nil
  show ?thesis
  proof (cases "data m = []")
    case True
    with Nil show ?thesis by (cases m) (simp add: transpose_m_def transpose_of_def)
  next
    case False
    with Nil transpose_m_miss[OF Nil False rectangular_ge[OF assms(1)]] show ?thesis by simp
  qed
qed

lemma transpose_m_snd:
  assumes "rectangular m" "cache_fresh m"
  shows "snd (transpose_m m) =
     Matrix (data m) (if data m = [] then cache m else [Matrix (transpose_of (data m)) []])"
proof (cases "cache m")
  case (Cons c cs)
  with assms(2) show ?thesis by (cases m) (simp add: transpose_m_def cache_fresh_def)
next
  case Nil
  show ?thesis
  proof (cases "data m = []")
    case True
    with Nil show ?thesis by (cases m) (simp add: transpose_m_def)
  next
    case False
    with Nil transpose_m_miss[OF Nil False rectangular_ge[OF assms(1)]] show ?thesis by simp
  qed
qed

lemma length_transpose_of: "length (transpose_of d) = (if d = [] then 0 else length (d ! 0))"
  by (cases d) (simp_all add: transpose_of_def)

lemma nth_transpose_of:
  "d \<noteq> [] \<Longrightarrow> j < length (d ! 0) \<Longrightarrow> transpose_of d ! j = map (\<lambda>row. row ! j) d"
  by (cases d) (simp_all add: transpose_of_def del: upt_Suc)

lemma assign_err: "assign m i j v = Inl e \<Longrightarrow> e = undefined_behaviour"
  by (auto simp: assign_def at_mut_def vec_index_def split: if_splits)

lemma assign_cache: "assign m i j v = Inr m' \<Longrightarrow> cache m' = []"
  by (auto simp: assign_def at_mut_def vec_index_def write_row_def split: if_splits)

lemma transpose_inner_step:
  "j < length d \<Longrightarrow> transpose_inner d i j m_T =
     (if i < length (d ! j) then
        (case assign m_T i j (d ! j ! i) of
           Inl e \<Rightarrow> Inl e
         | Inr m_T' \<Rightarrow> transpose_inner d i (Suc j) m_T')
      else Inl undefined_behaviour)"
  by (subst transpose_inner.simps) (simp add: vec_index_def)

lemma transpose_inner_done: "\<not> j < length d \<Longrightarrow> transpose_inner d i j m_T = Inr m_T"
  by (subst transpose_inner.simps) simp

lemma transpose_outer_step:
  "d \<noteq> [] \<Longrightarrow> i < length (d ! 0) \<Longrightarrow> transpose_outer d i m_T =
     (case transpose_inner d i 0 m_T of
        Inl e \<Rightarrow> Inl e
      | Inr m_T' \<Rightarrow> transpose_outer d (Suc i) m_T')"
  by (subst transpose_outer.simps) (simp add: vec_at_def)

lemma transpose_outer_done:
  "d \<noteq> [] \<Longrightarrow> \<not> i < length (d ! 0) \<Longrightarrow> transpose_outer d i m_T = Inr m_T"
  by (subst transpose_outer.simps) (simp add: vec_at_def)

lemma transpose_inner_err: "transpose_inner d i j m_T = Inl e \<Longrightarrow> e = undefined_behaviour"
proof (induction d i j m_T rule: transpose_inner.induct)
  case (1 d i j m_T)
  show ?case
  proof (cases "j < length d")
    case False
    with "1.prems" show ?thesis by (simp add: transpose_inner_done)
  next
    case lt: True
    show ?thesis
    proof (cases "i < length (d ! j)")
      case False
      with lt "1.prems" show ?thesis by (simp add: transpose_inner_step)
    next
      case True
      have vj: "vec_index d j = Inr (d ! j)" using lt by (simp add: vec_index_def)
      have vi: "vec_index (d ! j) i = Inr (d ! j ! i)" using True by (simp add: vec_index_def)
      show ?thesis
      proof (cases "assign m_T i j (d ! j ! i)")
        case (Inl e')
        with lt True "1.prems" assign_err[OF Inl] show ?thesis
          by (simp add: transpose_inner_step)
      next
        case (Inr m')
        with lt True "1.prems" have "transpose_inner d i (Suc j) m' = Inl e"
          by (simp add: transpose_inner_step)
        from "1.IH"[OF lt vj vi Inr this] show ?thesis .
      qed
    qed
  qed
qed

lemma transpose_outer_err:
  "transpose_outer d i m_T = Inl e \<Longrightarrow> d \<noteq> [] \<Longrightarrow> e = undefined_behaviour"
proof (induction d i m_T rule: transpose_outer.induct)
  case (1 d i m_T)
  have at0: "vec_at d 0 = Inr (d ! 0)" using "1.prems" by (simp add: vec_at_def)
  show ?case
  proof (cases "i < length (d ! 0)")
    case False
    with "1.prems" show ?thesis by (simp add: transpose_outer_done)
  next
    case True
    show ?thesis
    proof (cases "transpose_inner d i 0 m_T")
      case (Inl e')
      with True "1.prems" transpose_inner_err[OF Inl] show ?thesis
        by (simp add: transpose_outer_step)
    next
      case (Inr m')
      with True "1.prems" have "transpose_outer d (Suc i) m' = Inl e"
        by (simp add: transpose_outer_step)
      from "1.IH"[OF at0 True Inr this "1.prems"(2)] show ?thesis .
    qed
  qed
qed

lemma transpose_inner_short:
  "j \<le> j' \<Longrightarrow> j' < length d \<Longrightarrow> length (d ! j') \<le> i \<Longrightarrow>
     \<exists>e. transpose_inner d i j m_T = Inl e"
proof (induction d i j m_T rule: transpose_inner.induct)
  case (1 d i j m_T)
  have lt: "j < length d" using "1.prems" by simp
  show ?case
  proof (cases "i < length (d ! j)")
    case False
    with lt show ?thesis by (simp add: transpose_inner_step)
  next
    case True
    with "1.prems" have ne: "j \<noteq> j'" by auto
    show ?thesis
    proof (cases "assign m_T i j (d ! j ! i)")
      case (Inl e)
      with lt True show ?thesis by (simp add: transpose_inner_step)
    next
      case (Inr m')
      have vj: "vec_index d j = Inr (d ! j)" using lt by (simp add: vec_index_def)
      have vi: "vec_index (d ! j) i = Inr (d ! j ! i)" using True by (simp add: vec_index_def)
      from "1.IH"[OF lt vj vi Inr] ne "1.prems"
      have "\<exists>e. transpose_inner d i (Suc j) m' = Inl e" by simp
      with lt True Inr show ?thesis by (simp add: transpose_inner_step)
    qed
  qed
qed

lemma transpose_outer_short:
  "j' < length d \<Longrightarrow> length (d ! j') < length (d ! 0) \<Longrightarrow> i \<le> length (d ! j') \<Longrightarrow>
     \<exists>e. transpose_outer d i m_T = Inl e"
proof (induction d i m_T rule: transpose_outer.induct)
  case (1 d i m_T)
  have ne: "d \<noteq> []" using "1.prems" by auto
  have at0: "vec_at d 0 = Inr (d ! 0)" using ne by (simp add: vec_at_def)
  have lt: "i < length (d ! 0)" using "1.prems" by simp
  show ?case
  proof (cases "transpose_inner d i 0 m_T")
    case (Inl e)
    with ne lt show ?thesis by (simp add: transpose_outer_step)
  next
    case (Inr m')
    have "i \<noteq> length (d ! j')"
      using transpose_inner_short[of 0 j' d i m_T] "1.prems" Inr by auto
    with "1.prems" have "Suc i \<le> length (d ! j')" by simp
    from "1.IH"[OF at0 lt Inr "1.prems"(1,2) this] ne lt Inr
    show ?thesis by (simp add: transpose_outer_step)
  qed
qed

lemma transpose_outer_success:
  assumes "transpose_outer d 0 m_T = Inr r"
  shows "\<forall>row\<in>set d. length (d ! 0) \<le> length row"
proof (rule ccontr)
  assume "\<not> ?thesis"
  then obtain row where "row \<in> set d" "length row < length (d ! 0)" by auto
  then obtain j' where "j' < length d" "length (d ! j') < length (d ! 0)"
    by (auto simp: in_set_conv_nth)
  from transpose_outer_short[OF this, of 0 m_T] assms show False by simp
qed

text \<open>What \<^verbatim>\<open>transpose\<close> does on every matrix with a row and an empty cache.\<close>

lemma transpose_m_computed:
  assumes "cache m = []" "data m \<noteq> []"
  shows "transpose_m m =
     (if \<forall>row\<in>set (data m). length (data m ! 0) \<le> length row
      then (Inr (Matrix (transpose_of (data m)) []),
            Matrix (data m) [Matrix (transpose_of (data m)) []])
      else (Inl undefined_behaviour, m))"
proof (cases "\<forall>row\<in>set (data m). length (data m ! 0) \<le> length row")
  case True
  with transpose_m_miss[OF assms True] show ?thesis by simp
next
  case False
  let ?r = "transpose_outer (data m) 0 (matrix_fill (cols m) (rows m) 0)"
  have "?r = Inl undefined_behaviour"
  proof (cases ?r)
    case (Inl e)
    with transpose_outer_err[OF Inl assms(2)] show ?thesis by simp
  next
    case (Inr r)
    with transpose_outer_success[OF Inr] False show ?thesis by simp
  qed
  with False assms show ?thesis by (simp add: transpose_m_def)
qed

lemma transpose_m_fresh:
  assumes "cache_fresh m"
  shows "cache_fresh (snd (transpose_m m))"
proof (cases "cache m")
  case (Cons c cs)
  with assms show ?thesis by (simp add: transpose_m_def)
next
  case Nil
  show ?thesis
  proof (cases "data m = []")
    case True
    with Nil assms show ?thesis by (simp add: transpose_m_def)
  next
    case False
    from transpose_m_computed[OF Nil False] Nil False show ?thesis
      by (simp add: cache_fresh_def)
  qed
qed

lemma transpose_m_result_fresh:
  assumes "cache_fresh m" "fst (transpose_m m) = Inr t"
  shows "cache_fresh t"
proof (cases "cache m")
  case (Cons c cs)
  with assms show ?thesis by (auto simp: transpose_m_def cache_fresh_def)
next
  case Nil
  show ?thesis
  proof (cases "data m = []")
    case True
    with Nil assms show ?thesis by (auto simp: transpose_m_def)
  next
    case False
    from transpose_m_computed[OF Nil False] assms(2) show ?thesis
      by (auto simp: cache_fresh_def split: if_splits)
  qed
qed

lemma transpose_m_err: "fst (transpose_m m) = Inl e \<Longrightarrow> e = undefined_behaviour"
proof (cases "cache m")
  case (Cons c cs)
  assume "fst (transpose_m m) = Inl e"
  with Cons show ?thesis by (simp add: transpose_m_def)
next
  case Nil
  assume a: "fst (transpose_m m) = Inl e"
  show ?thesis
  proof (cases "data m = []")
    case True
    with Nil a show ?thesis by (simp add: transpose_m_def)
  next
    case False
    from transpose_m_computed[OF Nil False] a show ?thesis
      by (auto split: if_splits)
  qed
qed

subsection \<open>The loops of multiply\<close>

lemma multiply_inner_step:
  "j < cols m2 \<Longrightarrow> multiply_inner i j m1 m2 result =
     (case multiply_step i j m1 m2 result of
        (Some e, s) \<Rightarrow> (Some e, s)
      | (None, m1', m2', result') \<Rightarrow> multiply_inner i (Suc j) m1' m2' result')"
  by (subst multiply_inner.simps) simp

lemma multiply_inner_done:
  "\<not> j < cols m2 \<Longrightarrow> multiply_inner i j m1 m2 result = (None, m1, m2, result)"
  by (subst multiply_inner.simps) simp

lemma multiply_outer_step:
  "i < rows m1 \<Longrightarrow> multiply_outer i m1 m2 result =
     (case multiply_inner i 0 m1 m2 result of
        (Some e, s) \<Rightarrow> (Some e, s)
      | (None, m1', m2', result') \<Rightarrow> multiply_outer (Suc i) m1' m2' result')"
  by (subst multiply_outer.simps) simp

lemma multiply_outer_done:
  "\<not> i < rows m1 \<Longrightarrow> multiply_outer i m1 m2 result = (None, m1, m2, result)"
  by (subst multiply_outer.simps) simp

text \<open>
  An invariant rule for the loops of multiply: if every execution of the loop body from a
  state satisfying \<open>I\<close> leads to a state satisfying \<open>I\<close> and \<open>P\<close>, then the loop ends in such a
  state, or it has not run the body at all.
\<close>

lemma multiply_inner_rule:
  assumes step: "\<And>i j m1 m2 res r m1' m2' res'.
      I m1 m2 res \<Longrightarrow> i < rows m1 \<Longrightarrow> j < cols m2 \<Longrightarrow>
      multiply_step i j m1 m2 res = (r, m1', m2', res') \<Longrightarrow>
      I m1' m2' res' \<and> rows m1' = rows m1 \<and> P r m1' m2' res'"
    and "I m1 m2 res" and "i < rows m1"
    and "multiply_inner i j m1 m2 res = (r, m1', m2', res')"
  shows "(I m1' m2' res' \<and> rows m1' = rows m1 \<and> P r m1' m2' res') \<or>
         (\<not> j < cols m2 \<and> r = None \<and> m1' = m1 \<and> m2' = m2 \<and> res' = res)"
  using assms(2-)
proof (induction i j m1 m2 res rule: multiply_inner.induct)
  case (1 i j m1 m2 res)
  show ?case
  proof (cases "j < cols m2")
    case False
    with "1.prems" show ?thesis by (simp add: multiply_inner_done)
  next
    case True
    obtain r1 a b c where st: "multiply_step i j m1 m2 res = (r1, a, b, c)"
      by (cases "multiply_step i j m1 m2 res") auto
    from step[OF "1.prems"(1,2) True st]
    have s1: "I a b c" "rows a = rows m1" "P r1 a b c" by simp_all
    show ?thesis
    proof (cases r1)
      case (Some e)
      with "1.prems"(3) True st s1 show ?thesis by (simp add: multiply_inner_step)
    next
      case None
      with "1.prems"(3) True st have rec: "multiply_inner i (Suc j) a b c = (r, m1', m2', res')"
        by (simp add: multiply_inner_step)
      have "i < rows a" using s1(2) "1.prems"(2) by simp
      from "1.IH"[OF True st[symmetric] None refl refl s1(1) this rec] s1 None
      show ?thesis by auto
    qed
  qed
qed

lemma multiply_outer_rule:
  assumes step: "\<And>i j m1 m2 res r m1' m2' res'.
      I m1 m2 res \<Longrightarrow> i < rows m1 \<Longrightarrow> j < cols m2 \<Longrightarrow>
      multiply_step i j m1 m2 res = (r, m1', m2', res') \<Longrightarrow>
      I m1' m2' res' \<and> rows m1' = rows m1 \<and> P r m1' m2' res'"
    and "I m1 m2 res"
    and "multiply_outer i m1 m2 res = (r, m1', m2', res')"
  shows "(I m1' m2' res' \<and> P r m1' m2' res') \<or>
         ((\<not> i < rows m1 \<or> cols m2 = 0) \<and> r = None \<and> m1' = m1 \<and> m2' = m2 \<and> res' = res)"
  using assms(2-)
proof (induction i m1 m2 res rule: multiply_outer.induct)
  case (1 i m1 m2 res)
  show ?case
  proof (cases "i < rows m1")
    case False
    with "1.prems" show ?thesis by (simp add: multiply_outer_done)
  next
    case True
    obtain r1 a b c where inn: "multiply_inner i 0 m1 m2 res = (r1, a, b, c)"
      by (cases "multiply_inner i 0 m1 m2 res") auto
    have alt: "(I a b c \<and> rows a = rows m1 \<and> P r1 a b c) \<or>
               (\<not> 0 < cols m2 \<and> r1 = None \<and> a = m1 \<and> b = m2 \<and> c = res)"
    proof (rule multiply_inner_rule[where I=I and P=P, OF _ "1.prems"(1) True inn])
      fix i j m1 m2 res r m1' m2' res'
      assume "I m1 m2 res" "i < rows m1" "j < cols m2"
        "multiply_step i j m1 m2 res = (r, m1', m2', res')"
      then show "I m1' m2' res' \<and> rows m1' = rows m1 \<and> P r m1' m2' res'" by (rule step)
    qed
    show ?thesis
    proof (cases r1)
      case (Some e)
      with "1.prems"(2) True inn alt show ?thesis by (auto simp: multiply_outer_step)
    next
      case None
      with "1.prems"(2) True inn have rec: "multiply_outer (Suc i) a b c = (r, m1', m2', res')"
        by (simp add: multiply_outer_step)
      from alt have Ia: "I a b c" using "1.prems"(1) by auto
      from "1.IH"[OF True inn[symmetric] None refl refl Ia rec]
      have ih: "(I m1' m2' res' \<and> P r m1' m2' res') \<or>
         ((\<not> Suc i < rows a \<or> cols b = 0) \<and> r = None \<and> m1' = a \<and> m2' = b \<and> res' = c)" .
      from alt ih None show ?thesis by auto
    qed
  qed
qed

lemma dot_loop_ok:
  "length v1 = length v2 \<Longrightarrow>
     dot_loop v1 v2 i acc = Inr (foldl (\<lambda>acc k. acc + v1 ! k * v2 ! k) acc [i..<length v1])"
proof (induction v1 v2 i acc rule: dot_loop.induct)
  case (1 v1 v2 i result)
  show ?case
  proof (cases "i < length v1")
    case False
    then show ?thesis by (subst dot_loop.simps) simp
  next
    case True
    have a: "vec_at v1 i = Inr (v1 ! i)" using True by (simp add: vec_at_def)
    have b: "vec_at v2 i = Inr (v2 ! i)" using True "1.prems" by (simp add: vec_at_def)
    from "1.IH"[OF True a b "1.prems"] True a b show ?thesis
      by (subst dot_loop.simps) (simp add: upt_conv_Cons)
  qed
qed

lemma dot_ok: "length v1 = length v2 \<Longrightarrow> dot v1 v2 = Inr (dot_sum v1 v2)"
  by (simp add: dot_def dot_sum_def dot_loop_ok)

lemma dot_mismatch:
  "length v1 \<noteq> length v2 \<Longrightarrow> dot v1 v2 = Inl (invalid_dimension (length v1) (length v2))"
  by (simp add: dot_def)

lemma dot_err:
  "dot v1 v2 = Inl e \<Longrightarrow> e = invalid_dimension (length v1) (length v2) \<and> length v1 \<noteq> length v2"
  by (cases "length v1 = length v2") (simp_all add: dot_ok dot_mismatch)

lemma at_mut_err: "fst (at_mut m i) = Inl e \<Longrightarrow> e = undefined_behaviour"
  by (simp add: at_mut_def vec_index_def split: if_splits)

lemma multiply_step_m1:
  "multiply_step i j m1 m2 res = (r, m1', m2', res') \<Longrightarrow> m1' = Matrix (data m1) []"
  by (auto simp: multiply_step_def at_mut_def split: sum.splits prod.splits)

lemma multiply_step_m2:
  "multiply_step i j m1 m2 res = (r, m1', m2', res') \<Longrightarrow>
     m2' = (if i < rows m1 then snd (transpose_m m2) else m2)"
  by (auto simp: multiply_step_def at_mut_def vec_index_def rows_def
           split: sum.splits prod.splits if_splits)

lemma multiply_step_result_cache:
  "multiply_step i j m1 m2 res = (r, m1', m2', res') \<Longrightarrow> cache res = [] \<Longrightarrow> cache res' = []"
  by (auto simp: multiply_step_def split: sum.splits prod.splits dest: assign_cache)

lemma multiply_step_err:
  assumes "multiply_step i j m1 m2 res = (Some e, m1', m2', res')"
  shows "e \<noteq> out_of_range"
proof -
  obtain r1 a where am: "at_mut m1 i = (r1, a)" by (cases "at_mut m1 i") auto
  obtain r2 b where tr: "transpose_m m2 = (r2, b)" by (cases "transpose_m m2") auto
  show ?thesis
  proof (cases r1)
    case (Inl e1)
    with am assms at_mut_err[of m1 i e1] show ?thesis by (simp add: multiply_step_def)
  next
    case v1: (Inr v1)
    show ?thesis
    proof (cases r2)
      case (Inl e2)
      with am v1 tr assms transpose_m_err[of m2 e2] show ?thesis
        by (simp add: multiply_step_def)
    next
      case t: (Inr t)
      obtain r3 c where at: "at_mut t j = (r3, c)" by (cases "at_mut t j") auto
      show ?thesis
      proof (cases r3)
        case (Inl e3)
        with am v1 tr t at assms at_mut_err[of t j e3] show ?thesis
          by (simp add: multiply_step_def)
      next
        case v2: (Inr v2)
        show ?thesis
        proof (cases "dot v1 v2")
          case (Inl e4)
          with am v1 tr t at v2 assms dot_err[OF Inl] show ?thesis
            by (auto simp: multiply_step_def)
        next
          case x: (Inr x)
          show ?thesis
          proof (cases "assign res i j x")
            case (Inl e5)
            with am v1 tr t at v2 x assms assign_err[OF Inl] show ?thesis
              by (auto simp: multiply_step_def)
          next
            case (Inr res2)
            with am v1 tr t at v2 x assms show ?thesis by (simp add: multiply_step_def)
          qed
        qed
      qed
    qed
  qed
qed

lemma cache_fresh_cleared: "cache_fresh (Matrix d [])"
  by (simp add: cache_fresh_def)

lemma multiply_step_fresh:
  assumes "multiply_step i j m1 m2 res = (r, m1', m2', res')"
    and "cache_fresh m2" and "cache res = []"
  shows "cache_fresh m1' \<and> cache_fresh m2' \<and> cache res' = []"
  using multiply_step_m1[OF assms(1)] multiply_step_m2[OF assms(1)]
    multiply_step_result_cache[OF assms(1,3)] transpose_m_fresh[OF assms(2)] assms(2)
  by (simp add: cache_fresh_cleared)

lemma multiply_step_rows:
  "multiply_step i j m1 m2 res = (r, m1', m2', res') \<Longrightarrow> rows m1' = rows m1"
  by (drule multiply_step_m1) (simp add: rows_def)

lemma multiply_outer_fresh:
  assumes "multiply_outer i m1 m2 res = (r, m1', m2', res')"
    and "cache_fresh m1" "cache_fresh m2" "cache res = []"
  shows "cache_fresh m1' \<and> cache_fresh m2' \<and> cache res' = []"
proof -
  have "((cache_fresh m1' \<and> cache_fresh m2' \<and> cache res' = []) \<and> True) \<or>
         ((\<not> i < rows m1 \<or> cols m2 = 0) \<and> r = None \<and> m1' = m1 \<and> m2' = m2 \<and> res' = res)"
  proof (rule multiply_outer_rule[where I="\<lambda>a b c. cache_fresh a \<and> cache_fresh b \<and> cache c = []"
        and P="\<lambda>r a b c. True", OF _ _ assms(1)])
    fix i j m1 m2 res r m1' m2' res'
    assume "cache_fresh m1 \<and> cache_fresh m2 \<and> cache res = []"
      and st: "multiply_step i j m1 m2 res = (r, m1', m2', res')"
    then show "(cache_fresh m1' \<and> cache_fresh m2' \<and> cache res' = []) \<and> rows m1' = rows m1 \<and> True"
      using multiply_step_fresh[OF st] multiply_step_rows[OF st] by simp
  next
    show "cache_fresh m1 \<and> cache_fresh m2 \<and> cache res = []" using assms by simp
  qed
  with assms show ?thesis by auto
qed

lemma multiply_fresh:
  assumes "multiply m1 m2 = (r, m1', m2')" and "cache_fresh m1" "cache_fresh m2"
  shows "cache_fresh m1' \<and> cache_fresh m2' \<and> (\<forall>res. r = Inr res \<longrightarrow> cache_fresh res)"
proof (cases "rows m1 = 0 \<or> rows m2 = 0")
  case True
  with assms show ?thesis by (auto simp: multiply_def)
next
  case False
  let ?res = "matrix_fill (rows m1) (cols m2) 0"
  obtain r1 a b c where out: "multiply_outer 0 m1 m2 ?res = (r1, a, b, c)"
    by (cases "multiply_outer 0 m1 m2 ?res") auto
  have "cache ?res = []" by (simp add: matrix_fill_def)
  from multiply_outer_fresh[OF out assms(2,3) this]
  have f: "cache_fresh a" "cache_fresh b" "cache_fresh c" by (simp_all add: cache_fresh_def)
  from False out assms(1) have "m1' = a \<and> m2' = b \<and> (\<forall>res. r = Inr res \<longrightarrow> res = c)"
    by (cases r1) (auto simp: multiply_def)
  with f show ?thesis by auto
qed

lemma at_mut_cache: "cache (snd (at_mut m i)) = []"
  by (simp add: at_mut_def)

lemma mutate_row_result:
  "mutate_row m i f = Inr m' \<Longrightarrow> i < rows m \<and> m' = Matrix ((data m)[i := f (data m ! i)]) []"
  by (auto simp: mutate_row_def at_mut_def vec_index_def write_row_def rows_def split: if_splits)

lemma operator_neq_this: "snd (operator_neq lhs rhs) = lhs"
  by (simp add: operator_neq_def)

lemma operator_eq_this: "snd (operator_eq lhs rhs) = lhs"
  using operator_neq_this[of lhs rhs]
  by (cases "operator_neq lhs rhs") (auto simp: operator_eq_def split: sum.splits)

lemma rows_data: "data a = data b \<Longrightarrow> rows a = rows b"
  by (simp add: rows_def)

lemma cols_data: "data a = data b \<Longrightarrow> cols a = cols b"
  by (simp add: cols_def)

lemma rectangular_data: "data a = data b \<Longrightarrow> rectangular a = rectangular b"
  by (simp add: rectangular_def cols_def)

lemma at_mut_ok: "i < rows m \<Longrightarrow> at_mut m i = (Inr (data m ! i), Matrix (data m) [])"
  by (simp add: at_mut_def vec_index_def rows_def)

lemma transposed_row:
  assumes "j < cols m"
  shows "at_mut (Matrix (transpose_of (data m)) []) j =
     (Inr (map (\<lambda>row. row ! j) (data m)), Matrix (transpose_of (data m)) [])"
proof -
  from assms have ne: "data m \<noteq> []" by (auto simp: cols_def)
  with assms have j: "j < length (data m ! 0)" by (simp add: cols_nonempty)
  with ne show ?thesis
    by (simp add: at_mut_def vec_index_def length_transpose_of nth_transpose_of)
qed

lemma multiply_step_ok:
  assumes "i < rows m1" "j < cols m2" "rectangular m2" "cache_fresh m2"
    "length (data m1 ! i) = rows m2" "i < length (data res)" "j < length (data res ! i)"
  shows "multiply_step i j m1 m2 res =
     (None, Matrix (data m1) [], snd (transpose_m m2),
      Matrix ((data res)[i := (data res ! i)[j := entry (data m1) (data m2) i j]]) [])"
proof -
  have d: "dot (data m1 ! i) (map (\<lambda>row. row ! j) (data m2)) = Inr (entry (data m1) (data m2) i j)"
    using assms(5) by (simp add: dot_ok entry_def rows_def)
  obtain b where tr: "transpose_m m2 = (Inr (Matrix (transpose_of (data m2)) []), b)"
    using transpose_m_fst[OF assms(3,4)] by (cases "transpose_m m2") auto
  show ?thesis
    unfolding multiply_step_def
    by (simp add: at_mut_ok[OF assms(1)] tr transposed_row[OF assms(2)]
        d assign_ok[OF assms(6,7)])
qed

lemma multiply_step_mismatch:
  assumes "i < rows m1" "j < cols m2" "rectangular m2" "cache_fresh m2"
    "length (data m1 ! i) \<noteq> rows m2"
  shows "multiply_step i j m1 m2 res =
     (Some (invalid_dimension (length (data m1 ! i)) (rows m2)),
      Matrix (data m1) [], snd (transpose_m m2), res)"
proof -
  have d: "dot (data m1 ! i) (map (\<lambda>row. row ! j) (data m2)) =
      Inl (invalid_dimension (length (data m1 ! i)) (rows m2))"
    using assms(5) by (simp add: dot_mismatch rows_def)
  obtain b where tr: "transpose_m m2 = (Inr (Matrix (transpose_of (data m2)) []), b)"
    using transpose_m_fst[OF assms(3,4)] by (cases "transpose_m m2") auto
  show ?thesis
    unfolding multiply_step_def
    by (simp add: at_mut_ok[OF assms(1)] tr transposed_row[OF assms(2)] d)
qed

lemma multiply_inner_ok:
  assumes "i < rows m1" "rectangular m2" "cache_fresh m2" "length (data m1 ! i) = rows m2"
    "i < length (data res)" "length (data res ! i) = cols m2" "cache res = []"
  shows "\<exists>m1' m2'. multiply_inner i j m1 m2 res =
     (None, m1', m2',
      Matrix ((data res)[i := take j (data res ! i) @
                 map (entry (data m1) (data m2) i) [j..<cols m2]]) [])"
  using assms
proof (induction i j m1 m2 res rule: multiply_inner.induct)
  case (1 i j m1 m2 res)
  show ?case
  proof (cases "j < cols m2")
    case False
    with "1.prems" show ?thesis
      by (cases res) (simp add: multiply_inner_done list_update_same_conv)
  next
    case True
    let ?a = "Matrix (data m1) []"
    let ?b = "snd (transpose_m m2)"
    let ?c = "Matrix ((data res)[i := (data res ! i)[j := entry (data m1) (data m2) i j]]) []"
    have st: "multiply_step i j m1 m2 res = (None, ?a, ?b, ?c)"
      using multiply_step_ok[of i m1 j m2 res] "1.prems" True by simp
    have db: "data ?b = data m2" by (rule transpose_m_data)
    have pre: "i < rows ?a" "rectangular ?b" "cache_fresh ?b" "length (data ?a ! i) = rows ?b"
      "i < length (data ?c)" "length (data ?c ! i) = cols ?b" "cache ?c = []"
      using "1.prems" transpose_m_fresh[of m2] rectangular_data[OF db] rows_data[OF db] cols_data[OF db]
      by (simp_all add: rows_def)
    from "1.IH"[OF True st[symmetric] refl refl refl pre]
    obtain m1' m2' where ih: "multiply_inner i (Suc j) ?a ?b ?c =
       (None, m1', m2',
        Matrix ((data ?c)[i := take (Suc j) (data ?c ! i) @
                 map (entry (data ?a) (data ?b) i) [Suc j..<cols ?b]]) [])"
      by blast
    have unf: "multiply_inner i j m1 m2 res = multiply_inner i (Suc j) ?a ?b ?c"
      using True st by (simp add: multiply_inner_step)
    have e1: "multiply_inner i j m1 m2 res =
       (None, m1', m2',
        Matrix ((data ?c)[i := take (Suc j) (data ?c ! i) @
                 map (entry (data m1) (data m2) i) [Suc j..<cols m2]]) [])"
      unfolding unf ih by (simp only: db cols_data[OF db] matrix.sel)
    have jl: "j < length (data res ! i)" using True "1.prems"(6) by simp
    have e2: "(data ?c)[i := take (Suc j) (data ?c ! i) @
                 map (entry (data m1) (data m2) i) [Suc j..<cols m2]] =
              (data res)[i := take j (data res ! i) @
                 map (entry (data m1) (data m2) i) [j..<cols m2]]"
      using True jl "1.prems"(5) by (simp add: take_Suc_update upt_conv_Cons)
    show ?thesis unfolding e1 e2 by blast
  qed
qed

lemma multiply_inner_fresh:
  assumes "multiply_inner i j m1 m2 res = (r, m1', m2', res')" and "i < rows m1" "cache_fresh m2"
  shows "cache_fresh m2'"
proof -
  have "(cache_fresh m2' \<and> rows m1' = rows m1 \<and> True) \<or>
         (\<not> j < cols m2 \<and> r = None \<and> m1' = m1 \<and> m2' = m2 \<and> res' = res)"
  proof (rule multiply_inner_rule[where I="\<lambda>a b c. cache_fresh b" and P="\<lambda>r a b c. True",
        OF _ assms(3,2,1)])
    fix i j m1 m2 res r m1' m2' res'
    assume f: "cache_fresh m2" and st: "multiply_step i j m1 m2 res = (r, m1', m2', res')"
    show "cache_fresh m2' \<and> rows m1' = rows m1 \<and> True"
      using multiply_step_m2[OF st] multiply_step_rows[OF st] transpose_m_fresh[OF f] f by simp
  qed
  with assms(3) show ?thesis by auto
qed

lemma multiply_outer_ok:
  assumes "rectangular m1" "rectangular m2" "cache_fresh m2" "cols m1 = rows m2"
    "length (data res) = rows m1" "\<forall>k<rows m1. length (data res ! k) = cols m2" "cache res = []"
  shows "\<exists>m1' m2'. multiply_outer i m1 m2 res =
     (None, m1', m2',
      Matrix (take i (data res) @
              map (\<lambda>i'. map (entry (data m1) (data m2) i') [0..<cols m2]) [i..<rows m1]) [])"
  using assms
proof (induction i m1 m2 res rule: multiply_outer.induct)
  case (1 i m1 m2 res)
  show ?case
  proof (cases "i < rows m1")
    case False
    with "1.prems" show ?thesis
      by (cases res) (simp add: multiply_outer_done)
  next
    case True
    let ?row = "map (entry (data m1) (data m2) i) [0..<cols m2]"
    let ?c = "Matrix ((data res)[i := ?row]) []"
    have len: "length (data m1 ! i) = rows m2"
      using rectangular_row[OF "1.prems"(1) True] "1.prems"(4) by simp
    have il: "i < length (data res)" using True "1.prems"(5) by simp
    have rl: "length (data res ! i) = cols m2" using True "1.prems"(6) by simp
    from multiply_inner_ok[OF True "1.prems"(2,3) len il rl "1.prems"(7), of 0]
    obtain a b where inn: "multiply_inner i 0 m1 m2 res = (None, a, b, ?c)" by auto
    from multiply_inner_data[OF inn] have da: "data a = data m1" and db: "data b = data m2"
      by simp_all
    have fb: "cache_fresh b" by (rule multiply_inner_fresh[OF inn True "1.prems"(3)])
    have pre1: "rectangular a" "rectangular b" "cols a = rows b" "length (data ?c) = rows a"
      "cache ?c = []"
      using "1.prems" rectangular_data[OF da] rectangular_data[OF db] rows_data[OF da]
        rows_data[OF db] cols_data[OF da] cols_data[OF db]
      by simp_all
    have pre2: "\<forall>k<rows a. length (data ?c ! k) = cols b"
    proof (intro allI impI)
      fix k assume "k < rows a"
      then have "k < rows m1" by (simp add: rows_data[OF da])
      with "1.prems"(6) il show "length (data ?c ! k) = cols b"
        by (cases "k = i") (simp_all add: cols_data[OF db])
    qed
    note pre = pre1(1-4) pre2 pre1(5)
    from "1.IH"[OF True inn[symmetric] refl refl refl pre(1,2) fb pre(3-)]
    obtain m1' m2' where ih: "multiply_outer (Suc i) a b ?c =
      (None, m1', m2',
       Matrix (take (Suc i) (data ?c) @
              map (\<lambda>i'. map (entry (data a) (data b) i') [0..<cols b]) [Suc i..<rows a]) [])"
      by blast
    have unf: "multiply_outer i m1 m2 res = multiply_outer (Suc i) a b ?c"
      using True inn by (simp add: multiply_outer_step)
    have e1: "multiply_outer i m1 m2 res =
      (None, m1', m2',
       Matrix (take (Suc i) (data ?c) @
              map (\<lambda>i'. map (entry (data m1) (data m2) i') [0..<cols m2]) [Suc i..<rows m1]) [])"
      unfolding unf ih by (simp only: da db cols_data[OF db] rows_data[OF da])
    have e2: "take (Suc i) (data ?c) @
              map (\<lambda>i'. map (entry (data m1) (data m2) i') [0..<cols m2]) [Suc i..<rows m1] =
            take i (data res) @
              map (\<lambda>i'. map (entry (data m1) (data m2) i') [0..<cols m2]) [i..<rows m1]"
      using True il by (simp add: take_Suc_update upt_conv_Cons)
    show ?thesis unfolding e1 e2 by blast
  qed
qed

lemma entry_foldl:
  assumes "length (d1 ! i) = length d2"
  shows "entry d1 d2 i j = foldl (\<lambda>acc k. acc + d1 ! i ! k * d2 ! k ! j) 0 [0..<length d2]"
  unfolding entry_def dot_sum_def assms
  by (rule foldl_cong) simp_all

lemma multiply_ok:
  assumes "rectangular m1" "rectangular m2" "cache_fresh m2"
    "0 < rows m1" "0 < rows m2" "cols m1 = rows m2"
  shows "fst (multiply m1 m2) =
     Inr (Matrix (map (\<lambda>i. map (entry (data m1) (data m2) i) [0..<cols m2]) [0..<rows m1]) [])"
proof -
  let ?res = "matrix_fill (rows m1) (cols m2) 0 :: 'a matrix"
  have "length (data ?res) = rows m1" "\<forall>k<rows m1. length (data ?res ! k) = cols m2"
    "cache ?res = []"
    by (simp_all add: matrix_fill_def)
  from multiply_outer_ok[OF assms(1,2,3,6) this, of 0]
  obtain a b where "multiply_outer 0 m1 m2 ?res =
     (None, a, b, Matrix (map (\<lambda>i. map (entry (data m1) (data m2) i) [0..<cols m2]) [0..<rows m1]) [])"
    by auto
  with assms(4,5) show ?thesis by (simp add: multiply_def)
qed

lemma multiply_outer_no_out_of_range:
  assumes "multiply_outer i m1 m2 res = (r, m1', m2', res')"
  shows "r \<noteq> Some out_of_range"
proof -
  have "(True \<and> r \<noteq> Some out_of_range) \<or>
        ((\<not> i < rows m1 \<or> cols m2 = 0) \<and> r = None \<and> m1' = m1 \<and> m2' = m2 \<and> res' = res)"
  proof (rule multiply_outer_rule[where I="\<lambda>a b c. True" and P="\<lambda>r a b c. r \<noteq> Some out_of_range",
        OF _ _ assms])
    fix i j m1 m2 res r m1' m2' res'
    assume st: "multiply_step i j m1 m2 (res :: 'a matrix) = (r, m1', m2', res')"
    show "True \<and> rows m1' = rows m1 \<and> r \<noteq> Some out_of_range"
      using multiply_step_rows[OF st] multiply_step_err[of i j m1 m2 res _ m1' m2' res'] st
      by auto
  qed simp
  then show ?thesis by auto
qed

lemma multiply_outer_data:
  assumes "multiply_outer i m1 m2 res = (r, m1', m2', res')"
  shows "data m1' = data m1 \<and> data m2' = data m2"
proof -
  have "((data m1' = data m1 \<and> data m2' = data m2) \<and> True) \<or>
        ((\<not> i < rows m1 \<or> cols m2 = 0) \<and> r = None \<and> m1' = m1 \<and> m2' = m2 \<and> res' = res)"
  proof (rule multiply_outer_rule[where I="\<lambda>a b c. data a = data m1 \<and> data b = data m2"
        and P="\<lambda>r a b c. True", OF _ _ assms])
    fix i j ma mb res r ma' mb' res'
    assume I: "data ma = data m1 \<and> data mb = data m2"
      and st: "multiply_step i j ma mb (res :: 'a matrix) = (r, ma', mb', res')"
    show "(data ma' = data m1 \<and> data mb' = data m2) \<and> rows ma' = rows ma \<and> True"
      using multiply_step_data[OF st] multiply_step_rows[OF st] I by simp
  qed simp
  then show ?thesis by auto
qed

lemma multiply_data:
  "data (fst (snd (multiply m1 m2))) = data m1 \<and> data (snd (snd (multiply m1 m2))) = data m2"
proof (cases "rows m1 = 0 \<or> rows m2 = 0")
  case True
  then show ?thesis by (auto simp: multiply_def)
next
  case False
  let ?res = "matrix_fill (rows m1) (cols m2) 0 :: 'a matrix"
  obtain r a b c where out: "multiply_outer 0 m1 m2 ?res = (r, a, b, c)"
    by (cases "multiply_outer 0 m1 m2 ?res") auto
  from multiply_outer_data[OF out] False out show ?thesis
    by (cases r) (simp_all add: multiply_def)
qed

lemma multiply_mismatch:
  assumes "rectangular m2" "cache_fresh m2" "0 < rows m1" "0 < rows m2"
    "cols m1 \<noteq> rows m2" "0 < cols m2"
  shows "fst (multiply m1 m2) = Inl (invalid_dimension (cols m1) (rows m2))"
proof -
  let ?res = "matrix_fill (rows m1) (cols m2) 0 :: 'a matrix"
  have ne: "data m1 \<noteq> []" using assms(3) by (auto simp: rows_def)
  have len: "length (data m1 ! 0) \<noteq> rows m2"
    using assms(5) by (simp add: cols_nonempty[OF ne])
  have st: "multiply_step 0 0 m1 m2 ?res =
     (Some (invalid_dimension (cols m1) (rows m2)), Matrix (data m1) [], snd (transpose_m m2), ?res)"
    using multiply_step_mismatch[OF assms(3,6,1,2) len, of ?res]
    by (simp add: cols_nonempty[OF ne])
  have "multiply_inner 0 0 m1 m2 ?res =
     (Some (invalid_dimension (cols m1) (rows m2)), Matrix (data m1) [], snd (transpose_m m2), ?res)"
    using assms(6) st by (simp add: multiply_inner_step)
  then have "multiply_outer 0 m1 m2 ?res =
     (Some (invalid_dimension (cols m1) (rows m2)), Matrix (data m1) [], snd (transpose_m m2), ?res)"
    using assms(3) by (simp add: multiply_outer_step)
  with assms(3,4) show ?thesis by (simp add: multiply_def)
qed

lemma transpose_m_populates:
  assumes "rectangular m" "data m \<noteq> []"
  shows "cache (snd (transpose_m m)) \<noteq> []"
proof (cases "cache m")
  case (Cons c cs)
  then show ?thesis by (simp add: transpose_m_def)
next
  case Nil
  from transpose_m_miss[OF Nil assms(2) rectangular_ge[OF assms(1)]] show ?thesis by simp
qed

lemma multiply_outer_no_columns:
  assumes "cols m2 = 0" and "multiply_outer i m1 m2 res = (r, m1', m2', res')"
  shows "r = None \<and> m1' = m1 \<and> m2' = m2 \<and> res' = res"
proof -
  have "(cols m2' = 0 \<and> False) \<or>
        ((\<not> i < rows m1 \<or> cols m2 = 0) \<and> r = None \<and> m1' = m1 \<and> m2' = m2 \<and> res' = res)"
  proof (rule multiply_outer_rule[where I="\<lambda>a b c. cols b = 0" and P="\<lambda>r a b c. False",
        OF _ assms])
    fix i j :: nat and m1 m2 res m1' m2' res' :: "'a matrix" and r
    assume "cols m2 = 0" "j < cols m2"
    then show "cols m2' = 0 \<and> rows m1' = rows m1 \<and> False" by simp
  qed
  then show ?thesis by simp
qed

lemma multiply_outer_clears:
  assumes "multiply_outer i m1 m2 res = (r, m1', m2', res')" and "i < rows m1" "0 < cols m2"
  shows "cache m1' = []"
proof -
  have "(True \<and> cache m1' = []) \<or>
        ((\<not> i < rows m1 \<or> cols m2 = 0) \<and> r = None \<and> m1' = m1 \<and> m2' = m2 \<and> res' = res)"
  proof (rule multiply_outer_rule[where I="\<lambda>a b c. True" and P="\<lambda>r a b c. cache a = []",
        OF _ _ assms(1)])
    fix i j :: nat and m1 m2 res m1' m2' res' :: "'a matrix" and r
    assume st: "multiply_step i j m1 m2 res = (r, m1', m2', res')"
    show "True \<and> rows m1' = rows m1 \<and> cache m1' = []"
      using multiply_step_rows[OF st] multiply_step_m1[OF st] by simp
  qed simp
  with assms(2,3) show ?thesis by auto
qed

lemma multiply_outer_populates:
  assumes "multiply_outer i m1 m2 res = (r, m1', m2', res')"
    and "rectangular m2" "i < rows m1" "0 < cols m2"
  shows "cache m2' \<noteq> []"
proof -
  have "(rectangular m2' \<and> cache m2' \<noteq> []) \<or>
        ((\<not> i < rows m1 \<or> cols m2 = 0) \<and> r = None \<and> m1' = m1 \<and> m2' = m2 \<and> res' = res)"
  proof (rule multiply_outer_rule[where I="\<lambda>a b c. rectangular b"
        and P="\<lambda>r a b c. cache b \<noteq> []", OF _ assms(2,1)])
    fix i j :: nat and m1 m2 res m1' m2' res' :: "'a matrix" and r
    assume rect: "rectangular m2" and i: "i < rows m1" and j: "j < cols m2"
      and st: "multiply_step i j m1 m2 res = (r, m1', m2', res')"
    from j have ne: "data m2 \<noteq> []" by (auto simp: cols_def)
    have m2': "m2' = snd (transpose_m m2)" using multiply_step_m2[OF st] i by simp
    have "rectangular m2'" using rect rectangular_data[of m2' m2] m2' by (simp add: transpose_m_data)
    moreover have "cache m2' \<noteq> []" using transpose_m_populates[OF rect ne] m2' by simp
    ultimately show "rectangular m2' \<and> rows m1' = rows m1 \<and> cache m2' \<noteq> []"
      using multiply_step_rows[OF st] by simp
  qed
  with assms(3,4) show ?thesis by auto
qed

lemma multiply_clears:
  assumes "0 < rows m1" "0 < rows m2" "0 < cols m2"
  shows "cache (fst (snd (multiply m1 m2))) = []"
proof -
  let ?res = "matrix_fill (rows m1) (cols m2) 0 :: 'a matrix"
  obtain r a b c where out: "multiply_outer 0 m1 m2 ?res = (r, a, b, c)"
    by (cases "multiply_outer 0 m1 m2 ?res") auto
  from multiply_outer_clears[OF out assms(1,3)] assms(1,2) out show ?thesis
    by (cases r) (simp_all add: multiply_def)
qed

lemma multiply_populates:
  assumes "0 < rows m1" "0 < rows m2" "0 < cols m2" "rectangular m2"
  shows "cache (snd (snd (multiply m1 m2))) \<noteq> []"
proof -
  let ?res = "matrix_fill (rows m1) (cols m2) 0 :: 'a matrix"
  obtain r a b c where out: "multiply_outer 0 m1 m2 ?res = (r, a, b, c)"
    by (cases "multiply_outer 0 m1 m2 ?res") auto
  from multiply_outer_populates[OF out assms(4,1,3)] assms(1,2) out show ?thesis
    by (cases r) (simp_all add: multiply_def)
qed

lemma multiply_no_columns:
  assumes "cols m2 = 0"
  shows "snd (multiply m1 m2) = (m1, m2)"
proof (cases "rows m1 = 0 \<or> rows m2 = 0")
  case True
  then show ?thesis by (auto simp: multiply_def)
next
  case False
  let ?res = "matrix_fill (rows m1) (cols m2) 0 :: 'a matrix"
  obtain r a b c where out: "multiply_outer 0 m1 m2 ?res = (r, a, b, c)"
    by (cases "multiply_outer 0 m1 m2 ?res") auto
  from multiply_outer_no_columns[OF assms out] False out show ?thesis
    by (simp add: multiply_def)
qed

lemma cache_fresh_nonempty:
  "cache_fresh m \<Longrightarrow> cache m \<noteq> [] \<Longrightarrow> cache m = [Matrix (transpose_of (data m)) []]"
  by (cases "cache m") (simp_all add: cache_fresh_def)

subsection \<open>Row access\<close>

lemma at_out_of_range: "rows m \<le> i \<Longrightarrow> at m i = Inl out_of_range"
  by (simp add: at_def vec_at_def rows_def)

lemma at_mut_unchecked: "rows m \<le> i \<Longrightarrow> at_mut m i = (Inl undefined_behaviour, Matrix (data m) [])"
  by (simp add: at_mut_def vec_index_def rows_def)

subsection \<open>The loops of the comparison\<close>

lemma neq_inner_ok:
  assumes "i < rows lhs" "i < rows rhs" "length (data lhs ! i) = cols lhs"
    "length (data rhs ! i) = cols lhs"
  shows "neq_inner lhs rhs i j =
     Inr (\<exists>j'. j \<le> j' \<and> j' < cols lhs \<and> data lhs ! i ! j' \<noteq> data rhs ! i ! j')"
  using assms
proof (induction lhs rhs i j rule: neq_inner.induct)
  case (1 lhs rhs i j)
  show ?case
  proof (cases "j < cols lhs")
    case False
    then show ?thesis by (subst neq_inner.simps) auto
  next
    case True
    have a: "vec_index (data lhs) i = Inr (data lhs ! i)"
      using "1.prems"(1) by (simp add: vec_index_def rows_def)
    have b: "vec_index (data lhs ! i) j = Inr (data lhs ! i ! j)"
      using True "1.prems"(3) by (simp add: vec_index_def)
    have c: "at rhs i = Inr (data rhs ! i)"
      using "1.prems"(2) by (simp add: at_def vec_at_def rows_def)
    have d: "vec_index (data rhs ! i) j = Inr (data rhs ! i ! j)"
      using True "1.prems"(4) by (simp add: vec_index_def)
    show ?thesis
    proof (cases "data lhs ! i ! j = data rhs ! i ! j")
      case False
      with True a b c d show ?thesis by (subst neq_inner.simps) auto
    next
      case eq: True
      then have nn: "\<not> data lhs ! i ! j \<noteq> data rhs ! i ! j" by simp
      have "neq_inner lhs rhs i j = neq_inner lhs rhs i (Suc j)"
        using True a b c d eq by (subst neq_inner.simps) simp
      also have "\<dots> = Inr (\<exists>j'. Suc j \<le> j' \<and> j' < cols lhs \<and> data lhs ! i ! j' \<noteq> data rhs ! i ! j')"
        by (rule "1.IH"[OF True a b c d nn "1.prems"])
      also have "(\<exists>j'. Suc j \<le> j' \<and> j' < cols lhs \<and> data lhs ! i ! j' \<noteq> data rhs ! i ! j') =
                 (\<exists>j'. j \<le> j' \<and> j' < cols lhs \<and> data lhs ! i ! j' \<noteq> data rhs ! i ! j')"
        using eq by (metis Suc_leD Suc_leI le_neq_implies_less)
      finally show ?thesis .
    qed
  qed
qed

lemma neq_outer_ok:
  assumes "rectangular lhs" "rectangular rhs" "rows lhs = rows rhs" "cols lhs = cols rhs"
  shows "neq_outer lhs rhs i =
     Inr (\<exists>i' j'. i \<le> i' \<and> i' < rows lhs \<and> j' < cols lhs \<and>
                   data lhs ! i' ! j' \<noteq> data rhs ! i' ! j')"
  using assms
proof (induction lhs rhs i rule: neq_outer.induct)
  case (1 lhs rhs i)
  show ?case
  proof (cases "i < rows lhs")
    case False
    then show ?thesis by (subst neq_outer.simps) auto
  next
    case True
    have ir: "i < rows rhs" using True "1.prems"(3) by simp
    have inn: "neq_inner lhs rhs i 0 =
       Inr (\<exists>j'. 0 \<le> j' \<and> j' < cols lhs \<and> data lhs ! i ! j' \<noteq> data rhs ! i ! j')"
      using neq_inner_ok[OF True ir, of 0] rectangular_row[OF "1.prems"(1) True]
        rectangular_row[OF "1.prems"(2) ir] "1.prems"(4) by simp
    show ?thesis
    proof (cases "\<exists>j'. j' < cols lhs \<and> data lhs ! i ! j' \<noteq> data rhs ! i ! j'")
      case found: True
      then have "neq_outer lhs rhs i = Inr True"
        using True inn by (subst neq_outer.simps) simp
      moreover have "\<exists>i' j'. i \<le> i' \<and> i' < rows lhs \<and> j' < cols lhs \<and>
                   data lhs ! i' ! j' \<noteq> data rhs ! i' ! j'"
        using found True by auto
      ultimately show ?thesis by simp
    next
      case nf: False
      have inn': "neq_inner lhs rhs i 0 = Inr False" using inn nf by simp
      have "neq_outer lhs rhs i = neq_outer lhs rhs (Suc i)"
        using True inn' by (subst neq_outer.simps) simp
      also have "\<dots> = Inr (\<exists>i' j'. Suc i \<le> i' \<and> i' < rows lhs \<and> j' < cols lhs \<and>
                   data lhs ! i' ! j' \<noteq> data rhs ! i' ! j')"
        using "1.IH"[OF True inn' _ "1.prems"] by simp
      also have "(\<exists>i' j'. Suc i \<le> i' \<and> i' < rows lhs \<and> j' < cols lhs \<and>
                   data lhs ! i' ! j' \<noteq> data rhs ! i' ! j') =
                 (\<exists>i' j'. i \<le> i' \<and> i' < rows lhs \<and> j' < cols lhs \<and>
                   data lhs ! i' ! j' \<noteq> data rhs ! i' ! j')"
        using nf by (metis Suc_leD Suc_leI le_neq_implies_less)
      finally show ?thesis .
    qed
  qed
qed

lemma operator_neq_ok:
  assumes "rectangular lhs" "rectangular rhs"
  shows "fst (operator_neq lhs rhs) =
     Inr (\<not> (rows lhs = rows rhs \<and> cols lhs = cols rhs \<and>
             (\<forall>i<rows lhs. \<forall>j<cols lhs. data lhs ! i ! j = data rhs ! i ! j)))"
proof (cases "rows lhs = rows rhs \<and> cols lhs = cols rhs")
  case False
  then show ?thesis by (auto simp: operator_neq_def)
next
  case True
  then have "fst (operator_neq lhs rhs) = neq_outer lhs rhs 0" by (simp add: operator_neq_def)
  also have "\<dots> = Inr (\<exists>i' j'. 0 \<le> i' \<and> i' < rows lhs \<and> j' < cols lhs \<and>
                   data lhs ! i' ! j' \<noteq> data rhs ! i' ! j')"
    using neq_outer_ok[OF assms, of 0] True by simp
  finally show ?thesis using True by auto
qed

lemma operator_eq_ok:
  assumes "rectangular lhs" "rectangular rhs"
  shows "fst (operator_eq lhs rhs) =
     Inr (rows lhs = rows rhs \<and> cols lhs = cols rhs \<and>
             (\<forall>i<rows lhs. \<forall>j<cols lhs. data lhs ! i ! j = data rhs ! i ! j))"
proof -
  obtain r l where n: "operator_neq lhs rhs = (r, l)" by (cases "operator_neq lhs rhs") auto
  with operator_neq_ok[OF assms]
  have "r = Inr (\<not> (rows lhs = rows rhs \<and> cols lhs = cols rhs \<and>
             (\<forall>i<rows lhs. \<forall>j<cols lhs. data lhs ! i ! j = data rhs ! i ! j)))"
    by simp
  with n show ?thesis unfolding operator_eq_def by (simp only: prod.case sum.case fst_conv not_not)
qed

lemma rectangular_eq_data:
  assumes "rectangular a" "rectangular b"
  shows "(rows a = rows b \<and> cols a = cols b \<and>
             (\<forall>i<rows a. \<forall>j<cols a. data a ! i ! j = data b ! i ! j)) = (data a = data b)"
proof
  assume "data a = data b"
  then show "rows a = rows b \<and> cols a = cols b \<and>
             (\<forall>i<rows a. \<forall>j<cols a. data a ! i ! j = data b ! i ! j)"
    by (simp add: rows_def cols_def)
next
  assume h: "rows a = rows b \<and> cols a = cols b \<and>
             (\<forall>i<rows a. \<forall>j<cols a. data a ! i ! j = data b ! i ! j)"
  show "data a = data b"
  proof (rule nth_equalityI)
    show "length (data a) = length (data b)" using h by (simp add: rows_def)
  next
    fix i assume "i < length (data a)"
    then have i: "i < rows a" "i < rows b" using h by (simp_all add: rows_def)
    have la: "length (data a ! i) = cols a" by (rule rectangular_row[OF assms(1) i(1)])
    have lb: "length (data b ! i) = cols a" using rectangular_row[OF assms(2) i(2)] h by simp
    show "data a ! i = data b ! i"
      by (rule nth_equalityI) (use la lb h i in simp_all)
  qed
qed

subsection \<open>Transposing twice\<close>

lemma transpose_of_twice:
  assumes "d \<noteq> []" "\<forall>row\<in>set d. length row = n" "0 < n"
  shows "transpose_of (transpose_of d) = d"
proof -
  have n: "length (d ! 0) = n" using assms(1,2) by (cases d) auto
  have t: "transpose_of d = map (\<lambda>i. map (\<lambda>row. row ! i) d) [0..<n]"
    using assms(1) n by (cases d) (simp_all add: transpose_of_def)
  have tne: "transpose_of d \<noteq> []" using assms(3) t by simp
  have t0: "length (transpose_of d ! 0) = length d" using assms(3) t by simp
  have len: "length (transpose_of (transpose_of d)) = length d"
    using tne t0 by (simp add: length_transpose_of)
  show ?thesis
  proof (rule nth_equalityI)
    show "length (transpose_of (transpose_of d)) = length d" by (rule len)
  next
    fix i assume "i < length (transpose_of (transpose_of d))"
    then have i: "i < length d" using len by simp
    then have li: "length (d ! i) = n" using assms(2) by simp
    have "transpose_of (transpose_of d) ! i = map (\<lambda>row. row ! i) (transpose_of d)"
      using nth_transpose_of[OF tne, of i] i t0 by simp
    also have "\<dots> = map (\<lambda>j. d ! i ! j) [0..<n]" using i by (simp add: t)
    also have "\<dots> = d ! i" using li map_nth[of "d ! i"] by simp
    finally show "transpose_of (transpose_of d) ! i = d ! i" .
  qed
qed

lemma rectangular_transposed:
  assumes "rectangular m" "0 < cols m"
  shows "rectangular (Matrix (transpose_of (data m)) c)"
proof -
  from assms(2) have ne: "data m \<noteq> []" by (auto simp: cols_def)
  have t: "transpose_of (data m) = map (\<lambda>i. map (\<lambda>row. row ! i) (data m)) [0..<cols m]"
    using ne by (cases "data m") (simp_all add: transpose_of_def cols_def)
  show ?thesis
    using assms(2) by (auto simp: rectangular_def cols_def t)
qed

subsection \<open>The loops of print\<close>

lemma print_row_eq: "print_row shw row out = out @ concat (map (\<lambda>item. shw item @ '' '') row)"
  by (induction row arbitrary: out) simp_all

lemma print_rows_eq:
  "print_rows shw d out =
     out @ concat (map (\<lambda>row. concat (map (\<lambda>item. shw item @ '' '') row) @ endl) d)"
  by (induction d arbitrary: out) (simp_all add: print_row_eq)

subsection \<open>The loops of multiply on a store\<close>

lemma multiply_outer_refs_step:
  "i < rows (s p) \<Longrightarrow> multiply_outer_refs ord i s p q result =
     (case multiply_inner_refs ord i 0 s p q result of
        (Some e, x) \<Rightarrow> (Some e, x)
      | (None, s', result') \<Rightarrow> multiply_outer_refs ord (Suc i) s' p q result')"
  by (subst multiply_outer_refs.simps) simp

lemma multiply_outer_refs_done:
  "\<not> i < rows (s p) \<Longrightarrow> multiply_outer_refs ord i s p q result = (None, s, result)"
  by (subst multiply_outer_refs.simps) simp

lemma multiply_outer_refs_rule:
  assumes "\<And>i j s res r s' res'.
      I s res \<Longrightarrow> i < rows (s p) \<Longrightarrow> j < cols (s q) \<Longrightarrow>
      multiply_step_refs ord i j s p q res = (r, s', res') \<Longrightarrow>
      I s' res' \<and> rows (s' p) = rows (s p) \<and> P r s' res'"
    and "I s res"
    and "multiply_outer_refs ord i s p q res = (r, s', res')"
  shows "(I s' res' \<and> P r s' res') \<or>
         ((\<not> i < rows (s p) \<or> cols (s q) = 0) \<and> r = None \<and> s' = s \<and> res' = res)"
  using assms
proof (induction ord i s p q res rule: multiply_outer_refs.induct)
  case (1 ord i s p q res)
  note step = "1.prems"(1)
  show ?case
  proof (cases "i < rows (s p)")
    case False
    with "1.prems"(3) show ?thesis by (simp add: multiply_outer_refs_done)
  next
    case True
    obtain r1 a c where inn: "multiply_inner_refs ord i 0 s p q res = (r1, a, c)"
      by (cases "multiply_inner_refs ord i 0 s p q res") auto
    have alt: "(I a c \<and> rows (a p) = rows (s p) \<and> P r1 a c) \<or>
               (\<not> 0 < cols (s q) \<and> r1 = None \<and> a = s \<and> c = res)"
      apply (rule multiply_inner_refs_rule[where I=I and P=P, OF _ "1.prems"(2) True inn])
      apply (rule step; assumption)
      done
    show ?thesis
    proof (cases r1)
      case (Some e)
      with "1.prems"(3) True inn alt show ?thesis by (auto simp: multiply_outer_refs_step)
    next
      case None
      with "1.prems"(3) True inn
      have rec: "multiply_outer_refs ord (Suc i) a p q c = (r, s', res')"
        by (simp add: multiply_outer_refs_step)
      from alt have Ia: "I a c" using "1.prems"(2) by auto
      have ih: "(I s' res' \<and> P r s' res') \<or>
         ((\<not> Suc i < rows (a p) \<or> cols (a q) = 0) \<and> r = None \<and> s' = a \<and> res' = c)"
        apply (rule "1.IH"[OF True inn[symmetric] None refl])
          apply (rule step; assumption)
         apply (rule Ia)
        apply (rule rec)
        done
      from alt ih None show ?thesis by auto
    qed
  qed
qed

text \<open>From a property of the loop body to a property of \<open>multiply_refs\<close>.\<close>

lemma multiply_refs_rule:
  assumes "\<And>i j s res r s' res'.
      I s res \<Longrightarrow> i < rows (s p) \<Longrightarrow> j < cols (s q) \<Longrightarrow>
      multiply_step_refs ord i j s p q res = (r, s', res') \<Longrightarrow>
      I s' res' \<and> rows (s' p) = rows (s p) \<and> P s'"
    and "\<And>res. I s res"
  shows "P (snd (multiply_refs ord s p q)) \<or>
         ((rows (s p) = 0 \<or> rows (s q) = 0 \<or> cols (s q) = 0) \<and> snd (multiply_refs ord s p q) = s)"
proof (cases "rows (s p) = 0 \<or> rows (s q) = 0")
  case True
  then show ?thesis by (auto simp: multiply_refs_def)
next
  case False
  let ?res = "matrix_fill (rows (s p)) (cols (s q)) 0 :: 'a matrix"
  obtain r a c where out: "multiply_outer_refs ord 0 s p q ?res = (r, a, c)"
    by (cases "multiply_outer_refs ord 0 s p q ?res") auto
  have alt: "(I a c \<and> P a) \<or>
         ((\<not> 0 < rows (s p) \<or> cols (s q) = 0) \<and> r = None \<and> a = s \<and> c = ?res)"
    apply (rule multiply_outer_refs_rule[where I=I and P="\<lambda>r a c. P a", OF _ assms(2) out])
    apply (rule assms(1); assumption)
    done
  have sn: "snd (multiply_refs ord s p q) = a"
    using False out by (cases r) (simp_all add: multiply_refs_def)
  from alt False sn show ?thesis by auto
qed

lemma store2_0: "store2 a b 0 = a"
  by (simp add: store2_def)

lemma store2_1: "store2 a b (Suc 0) = b"
  by (simp add: store2_def)

lemma transpose_m_succeeds:
  assumes "rectangular m"
  shows "\<exists>t. fst (transpose_m m) = Inr t"
proof (cases "cache m")
  case (Cons c cs)
  then show ?thesis by (simp add: transpose_m_def)
next
  case Nil
  show ?thesis
  proof (cases "data m = []")
    case True
    with Nil show ?thesis by (simp add: transpose_m_def)
  next
    case False
    from transpose_m_miss[OF Nil False rectangular_ge[OF assms]] show ?thesis by simp
  qed
qed

lemma transpose_m_failed: "fst (transpose_m m) = Inl e \<Longrightarrow> snd (transpose_m m) = m"
  by (auto simp: transpose_m_def split: list.splits if_splits sum.splits)

text \<open>The store after one execution of the loop body, for each order.\<close>

lemma multiply_step_refs_m1_first:
  assumes "multiply_step_refs m1_first i j s p q res = (r, s', res')" and "i < rows (s p)"
  shows "s' = (s(p := Matrix (data (s p)) []))
               (q := snd (transpose_m ((s(p := Matrix (data (s p)) [])) q)))"
proof -
  let ?s1 = "s(p := Matrix (data (s p)) [])"
  have am: "at_mut (s p) i = (Inr (data (s p) ! i), Matrix (data (s p)) [])"
    by (rule at_mut_ok[OF assms(2)])
  obtain r2 b where tr: "transpose_m (?s1 q) = (r2, b)" by (cases "transpose_m (?s1 q)") auto
  have "s' = ?s1(q := b)"
    using assms(1) am tr
    by (auto simp: multiply_step_refs_def split: sum.splits)
  with tr show ?thesis by simp
qed

lemma multiply_step_refs_transpose_first:
  assumes "multiply_step_refs transpose_first i j s p q res = (r, s', res')"
    and "fst (transpose_m (s q)) = Inr t"
  shows "s' = (s(q := snd (transpose_m (s q))))
               (p := Matrix (data ((s(q := snd (transpose_m (s q)))) p)) [])"
proof -
  let ?s1 = "s(q := snd (transpose_m (s q)))"
  obtain b where tr: "transpose_m (s q) = (Inr t, b)"
    using assms(2) by (cases "transpose_m (s q)") auto
  then have s1: "?s1 = s(q := b)" by simp
  obtain r1 a where am: "at_mut ((s(q := b)) p) i = (r1, a)"
    by (cases "at_mut ((s(q := b)) p) i") auto
  then have a: "a = Matrix (data ((s(q := b)) p)) []" by (simp add: at_mut_def)
  have "s' = (s(q := b))(p := a)"
    using assms(1) am tr
    by (auto simp: multiply_step_refs_def split: sum.splits)
  with a s1 show ?thesis by simp
qed

lemma multiply_step_refs_rows:
  "multiply_step_refs ord i j s p q res = (r, s', res') \<Longrightarrow> rows (s' x) = rows (s x)"
  by (drule multiply_step_refs_data[of _ _ _ _ _ _ _ _ _ _ x]) (simp add: rows_def)

lemma multiply_step_refs_others:
  assumes "multiply_step_refs ord i j s p q res = (r, s', res')" and "x \<noteq> p" "x \<noteq> q"
  shows "s' x = s x"
proof (cases ord)
  case m1_first
  obtain r1 a where am: "at_mut (s p) i = (r1, a)" by (cases "at_mut (s p) i") auto
  obtain r2 b where tr: "transpose_m ((s(p := a)) q) = (r2, b)"
    by (cases "transpose_m ((s(p := a)) q)") auto
  have "s' = s(p := a) \<or> s' = (s(p := a))(q := b)"
    using assms(1) m1_first am tr
    by (auto simp: multiply_step_refs_def split: sum.splits)
  with assms(2,3) show ?thesis by auto
next
  case transpose_first
  obtain r2 b where tr: "transpose_m (s q) = (r2, b)" by (cases "transpose_m (s q)") auto
  obtain r1 a where am: "at_mut ((s(q := b)) p) i = (r1, a)"
    by (cases "at_mut ((s(q := b)) p) i") auto
  have "s' = s(q := b) \<or> s' = (s(q := b))(p := a)"
    using assms(1) transpose_first am tr
    by (auto simp: multiply_step_refs_def split: sum.splits)
  with assms(2,3) show ?thesis by auto
qed

text \<open>What one execution of the body leaves in the caches.\<close>

lemma multiply_step_refs_caches:
  assumes st: "multiply_step_refs ord i j s p q res = (r, s', res')"
    and i: "i < rows (s p)" and j: "j < cols (s q)" and rect: "rectangular (s q)"
  shows "(p \<noteq> q \<longrightarrow> cache (s' p) = [] \<and> cache (s' q) \<noteq> []) \<and>
         (p = q \<and> ord = m1_first \<longrightarrow> cache (s' p) \<noteq> []) \<and>
         (p = q \<and> ord = transpose_first \<longrightarrow> cache (s' p) = [])"
proof (cases ord)
  case m1_first
  let ?c = "Matrix (data (s p)) []"
  from multiply_step_refs_m1_first[OF st[unfolded m1_first] i]
  have s': "s' = (s(p := ?c))(q := snd (transpose_m ((s(p := ?c)) q)))" .
  from j have ne: "data (s q) \<noteq> []" by (auto simp: cols_def)
  have same: "p = q \<longrightarrow> cache (s' p) \<noteq> []"
  proof
    assume pq: "p = q"
    have "rectangular ?c" using rect rectangular_data[of ?c "s q"] pq by simp
    moreover have "data ?c \<noteq> []" using ne pq by simp
    ultimately have "cache (snd (transpose_m ?c)) \<noteq> []" by (rule transpose_m_populates)
    with s' pq show "cache (s' p) \<noteq> []" by simp
  qed
  have diff: "p \<noteq> q \<longrightarrow> cache (s' p) = [] \<and> cache (s' q) \<noteq> []"
    using s' transpose_m_populates[OF rect ne] by simp
  from same diff m1_first show ?thesis by auto
next
  case transpose_first
  from transpose_m_succeeds[OF rect] obtain t where t: "fst (transpose_m (s q)) = Inr t" ..
  let ?s1 = "s(q := snd (transpose_m (s q)))"
  from multiply_step_refs_transpose_first[OF st[unfolded transpose_first] t]
  have s': "s' = ?s1(p := Matrix (data (?s1 p)) [])" .
  from j have ne: "data (s q) \<noteq> []" by (auto simp: cols_def)
  have "cache (s' p) = []" using s' by simp
  moreover have "p \<noteq> q \<longrightarrow> cache (s' q) \<noteq> []"
    using s' transpose_m_populates[OF rect ne] by simp
  ultimately show ?thesis using transpose_first by auto
qed

lemma multiply_refs_data: "data (snd (multiply_refs ord s p q) x) = data (s x)"
proof -
  have "(\<forall>x. data (snd (multiply_refs ord s p q) x) = data (s x)) \<or>
         ((rows (s p) = 0 \<or> rows (s q) = 0 \<or> cols (s q) = 0) \<and> snd (multiply_refs ord s p q) = s)"
  proof (rule multiply_refs_rule[where I="\<lambda>a c. \<forall>x. data (a x) = data (s x)"
        and P="\<lambda>a. \<forall>x. data (a x) = data (s x)"])
    fix i j and sa :: "'a store" and res r sa' res'
    assume I: "\<forall>x. data (sa x) = data (s x)"
      and st: "multiply_step_refs ord i j sa p q res = (r, sa', res')"
    show "(\<forall>x. data (sa' x) = data (s x)) \<and> rows (sa' p) = rows (sa p) \<and>
          (\<forall>x. data (sa' x) = data (s x))"
      using multiply_step_refs_data[OF st] multiply_step_refs_rows[OF st] I by simp
  qed simp
  then show ?thesis by auto
qed

lemma multiply_refs_others:
  assumes "x \<noteq> p" "x \<noteq> q"
  shows "snd (multiply_refs ord s p q) x = s x"
proof -
  have "snd (multiply_refs ord s p q) x = s x \<or>
         ((rows (s p) = 0 \<or> rows (s q) = 0 \<or> cols (s q) = 0) \<and> snd (multiply_refs ord s p q) = s)"
  proof (rule multiply_refs_rule[where I="\<lambda>a c. a x = s x" and P="\<lambda>a. a x = s x"])
    fix i j and sa :: "'a store" and res r sa' res'
    assume I: "sa x = s x"
      and st: "multiply_step_refs ord i j sa p q res = (r, sa', res')"
    show "sa' x = s x \<and> rows (sa' p) = rows (sa p) \<and> sa' x = s x"
      using multiply_step_refs_others[OF st assms] multiply_step_refs_rows[OF st] I by simp
  qed simp
  then show ?thesis by auto
qed

lemma multiply_refs_no_columns:
  assumes "cols (s q) = 0"
  shows "snd (multiply_refs ord s p q) = s"
proof -
  have "False \<or>
         ((rows (s p) = 0 \<or> rows (s q) = 0 \<or> cols (s q) = 0) \<and> snd (multiply_refs ord s p q) = s)"
  proof (rule multiply_refs_rule[where I="\<lambda>a c. cols (a q) = 0" and P="\<lambda>a. False"])
    fix i j :: nat and sa :: "'a store" and res :: "'a matrix" and r sa' res'
    assume "cols (sa q) = 0" "j < cols (sa q)"
    then show "cols (sa' q) = 0 \<and> rows (sa' p) = rows (sa p) \<and> False" by simp
  qed (simp add: assms)
  then show ?thesis by simp
qed

lemma multiply_refs_caches:
  assumes "0 < rows (s p)" "0 < rows (s q)" "0 < cols (s q)" "rectangular (s q)"
  shows "(p \<noteq> q \<longrightarrow> cache (snd (multiply_refs ord s p q) p) = [] \<and>
                    cache (snd (multiply_refs ord s p q) q) \<noteq> []) \<and>
         (p = q \<and> ord = m1_first \<longrightarrow> cache (snd (multiply_refs ord s p q) p) \<noteq> []) \<and>
         (p = q \<and> ord = transpose_first \<longrightarrow> cache (snd (multiply_refs ord s p q) p) = [])"
proof -
  let ?P = "\<lambda>a. (p \<noteq> q \<longrightarrow> cache (a p) = [] \<and> cache (a q) \<noteq> []) \<and>
         (p = q \<and> ord = m1_first \<longrightarrow> cache (a p) \<noteq> []) \<and>
         (p = q \<and> ord = transpose_first \<longrightarrow> cache (a p) = [])"
  have "?P (snd (multiply_refs ord s p q)) \<or>
         ((rows (s p) = 0 \<or> rows (s q) = 0 \<or> cols (s q) = 0) \<and> snd (multiply_refs ord s p q) = s)"
  proof (rule multiply_refs_rule[where I="\<lambda>a c. rectangular (a q)" and P="?P"])
    fix i j and sa :: "'a store" and res r sa' res'
    assume rect: "rectangular (sa q)" and i: "i < rows (sa p)" and j: "j < cols (sa q)"
      and st: "multiply_step_refs ord i j sa p q res = (r, sa', res')"
    have "rectangular (sa' q)"
      using rect rectangular_data[OF multiply_step_refs_data[OF st, of q]] by simp
    with multiply_step_refs_caches[OF st i j rect] multiply_step_refs_rows[OF st, of p]
    show "rectangular (sa' q) \<and> rows (sa' p) = rows (sa p) \<and> ?P sa'" by simp
  qed (rule assms(4))
  with assms(1,2,3) show ?thesis by auto
qed

lemma multiply_refs_fresh:
  assumes "p \<noteq> q" "cache_fresh (s q)"
  shows "cache_fresh (snd (multiply_refs ord s p q) q)"
proof -
  have "cache_fresh (snd (multiply_refs ord s p q) q) \<or>
         ((rows (s p) = 0 \<or> rows (s q) = 0 \<or> cols (s q) = 0) \<and> snd (multiply_refs ord s p q) = s)"
  proof (rule multiply_refs_rule[where I="\<lambda>a c. cache_fresh (a q)" and P="\<lambda>a. cache_fresh (a q)"])
    fix i j and sa :: "'a store" and res r sa' res'
    assume f: "cache_fresh (sa q)"
      and st: "multiply_step_refs ord i j sa p q res = (r, sa', res')"
    have "sa' q = sa q \<or> sa' q = snd (transpose_m (sa q))"
    proof (cases ord)
      case m1_first
      obtain r1 a where am: "at_mut (sa p) i = (r1, a)" by (cases "at_mut (sa p) i") auto
      obtain r2 b where tr: "transpose_m ((sa(p := a)) q) = (r2, b)"
        by (cases "transpose_m ((sa(p := a)) q)") auto
      have "sa' = sa(p := a) \<or> sa' = (sa(p := a))(q := b)"
        using st m1_first am tr
        by (auto simp: multiply_step_refs_def split: sum.splits)
      with tr assms(1) show ?thesis by auto
    next
      case transpose_first
      obtain r2 b where tr: "transpose_m (sa q) = (r2, b)" by (cases "transpose_m (sa q)") auto
      obtain r1 a where am: "at_mut ((sa(q := b)) p) i = (r1, a)"
        by (cases "at_mut ((sa(q := b)) p) i") auto
      have "sa' = sa(q := b) \<or> sa' = (sa(q := b))(p := a)"
        using st transpose_first am tr
        by (auto simp: multiply_step_refs_def split: sum.splits)
      with tr assms(1) show ?thesis by auto
    qed
    with f transpose_m_fresh[OF f] multiply_step_refs_rows[OF st, of p]
    show "cache_fresh (sa' q) \<and> rows (sa' p) = rows (sa p) \<and> cache_fresh (sa' q)" by auto
  qed (rule assms(2))
  with assms(2) show ?thesis by auto
qed

text \<open>
  On two different objects \<open>multiply_refs\<close> is \<open>multiply\<close>: in the order \<open>m1_first\<close> always,
  and in the order \<open>transpose_first\<close> when \<open>m2\<close> is rectangular (otherwise the unchecked read
  inside \<^verbatim>\<open>transpose\<close> comes before \<^verbatim>\<open>m1[i]\<close> has emptied the cache of \<open>m1\<close>).
\<close>

lemma multiply_step_dot_assign:
  "multiply_step i j m1 m2 result =
     (case at_mut m1 i of
        (Inl e, m1') \<Rightarrow> (Some e, m1', m2, result)
      | (Inr v1, m1') \<Rightarrow>
          (case transpose_m m2 of
             (Inl e, m2') \<Rightarrow> (Some e, m1', m2', result)
           | (Inr t, m2') \<Rightarrow>
               (case dot_assign v1 t i j result of
                  Inl e \<Rightarrow> (Some e, m1', m2', result)
                | Inr result' \<Rightarrow> (None, m1', m2', result'))))"
  by (simp add: multiply_step_def dot_assign_def split: prod.splits sum.splits)

lemma store_same: "s(p := s p, q := s q) = s"
  by (rule ext) simp

lemma multiply_step_refs_distinct:
  assumes "p \<noteq> q" "i < rows (s p)" "ord = m1_first \<or> rectangular (s q)"
  shows "multiply_step_refs ord i j s p q res =
     (case multiply_step i j (s p) (s q) res of
        (r, m1', m2', res') \<Rightarrow> (r, s(p := m1', q := m2'), res'))"
proof -
  have am: "at_mut (s p) i = (Inr (data (s p) ! i), Matrix (data (s p)) [])"
    by (rule at_mut_ok[OF assms(2)])
  obtain r2 b where tr: "transpose_m (s q) = (r2, b)" by (cases "transpose_m (s q)") auto
  show ?thesis
  proof (cases ord)
    case m1_first
    with assms(1) am tr show ?thesis
      unfolding multiply_step_dot_assign multiply_step_refs_def
      by (simp split: sum.splits)
  next
    case transpose_first
    with assms(3) have "rectangular (s q)" by simp
    from transpose_m_succeeds[OF this] tr obtain t where r2: "r2 = Inr t" by auto
    have am': "at_mut ((s(q := b)) p) i = (Inr (data (s p) ! i), Matrix (data (s p)) [])"
      using assms(1) am by simp
    have upd: "(s(q := b))(p := Matrix (data (s p)) []) = s(p := Matrix (data (s p)) [], q := b)"
      using assms(1) by (simp add: fun_upd_twist)
    from transpose_first am am' tr r2 upd show ?thesis
      unfolding multiply_step_dot_assign multiply_step_refs_def
      by (simp split: sum.splits)
  qed
qed

lemma multiply_inner_refs_distinct:
  assumes "p \<noteq> q" "i < rows (s p)" "ord = m1_first \<or> rectangular (s q)"
  shows "multiply_inner_refs ord i j s p q res =
     (case multiply_inner i j (s p) (s q) res of
        (r, m1', m2', res') \<Rightarrow> (r, s(p := m1', q := m2'), res'))"
  using assms
proof (induction ord i j s p q res rule: multiply_inner_refs.induct)
  case (1 ord i j s p q res)
  show ?case
  proof (cases "j < cols (s q)")
    case False
    have a: "multiply_inner_refs ord i j s p q res = (None, s, res)"
      using False by (rule multiply_inner_refs_done)
    have b: "multiply_inner i j (s p) (s q) res = (None, s p, s q, res)"
      using False by (rule multiply_inner_done)
    show ?thesis unfolding a b by (simp only: prod.case store_same)
  next
    case True
    obtain r1 a b c where st: "multiply_step i j (s p) (s q) res = (r1, a, b, c)"
      by (cases "multiply_step i j (s p) (s q) res") auto
    have str: "multiply_step_refs ord i j s p q res = (r1, s(p := a, q := b), c)"
      using multiply_step_refs_distinct[OF "1.prems", of j res] st by simp
    show ?thesis
    proof (cases r1)
      case (Some e)
      with True st str show ?thesis
        by (auto simp: multiply_inner_refs_step multiply_inner_step fun_eq_iff)
    next
      case None
      let ?s' = "s(p := a, q := b)"
      from multiply_step_data[OF st] have d: "data a = data (s p)" "data b = data (s q)"
        by simp_all
      have sp: "?s' p = a" "?s' q = b" using "1.prems"(1) by simp_all
      have pre: "i < rows (?s' p)" "ord = m1_first \<or> rectangular (?s' q)"
        using "1.prems"(2,3) sp rows_data[OF d(1)] rectangular_data[OF d(2)] by simp_all
      have ih: "multiply_inner_refs ord i (Suc j) ?s' p q c =
         (case multiply_inner i (Suc j) (?s' p) (?s' q) c of
            (r, m1', m2', res') \<Rightarrow> (r, ?s'(p := m1', q := m2'), res'))"
        by (rule "1.IH"[OF True str[symmetric] None refl "1.prems"(1) pre])
      have "multiply_inner_refs ord i j s p q res = multiply_inner_refs ord i (Suc j) ?s' p q c"
        using True str None by (simp add: multiply_inner_refs_step)
      moreover have "multiply_inner i j (s p) (s q) res = multiply_inner i (Suc j) a b c"
        using True st None by (simp add: multiply_inner_step)
      ultimately show ?thesis
        unfolding ih sp by (auto simp: fun_eq_iff split: prod.splits)
    qed
  qed
qed

lemma multiply_outer_refs_distinct:
  assumes "p \<noteq> q" "ord = m1_first \<or> rectangular (s q)"
  shows "multiply_outer_refs ord i s p q res =
     (case multiply_outer i (s p) (s q) res of
        (r, m1', m2', res') \<Rightarrow> (r, s(p := m1', q := m2'), res'))"
  using assms
proof (induction ord i s p q res rule: multiply_outer_refs.induct)
  case (1 ord i s p q res)
  show ?case
  proof (cases "i < rows (s p)")
    case False
    have a: "multiply_outer_refs ord i s p q res = (None, s, res)"
      using False by (rule multiply_outer_refs_done)
    have b: "multiply_outer i (s p) (s q) res = (None, s p, s q, res)"
      using False by (rule multiply_outer_done)
    show ?thesis unfolding a b by (simp only: prod.case store_same)
  next
    case True
    obtain r1 a b c where inn: "multiply_inner i 0 (s p) (s q) res = (r1, a, b, c)"
      by (cases "multiply_inner i 0 (s p) (s q) res") auto
    have innr: "multiply_inner_refs ord i 0 s p q res = (r1, s(p := a, q := b), c)"
      using multiply_inner_refs_distinct[OF "1.prems"(1) True "1.prems"(2), of 0 res] inn by simp
    show ?thesis
    proof (cases r1)
      case (Some e)
      with True inn innr show ?thesis
        by (auto simp: multiply_outer_refs_step multiply_outer_step fun_eq_iff)
    next
      case None
      let ?s' = "s(p := a, q := b)"
      from multiply_inner_data[OF inn] have d: "data a = data (s p)" "data b = data (s q)"
        by simp_all
      have sp: "?s' p = a" "?s' q = b" using "1.prems"(1) by simp_all
      have pre: "ord = m1_first \<or> rectangular (?s' q)"
        using "1.prems"(2) sp rectangular_data[OF d(2)] by simp
      have ih: "multiply_outer_refs ord (Suc i) ?s' p q c =
         (case multiply_outer (Suc i) (?s' p) (?s' q) c of
            (r, m1', m2', res') \<Rightarrow> (r, ?s'(p := m1', q := m2'), res'))"
        by (rule "1.IH"[OF True innr[symmetric] None refl "1.prems"(1) pre])
      have "multiply_outer_refs ord i s p q res = multiply_outer_refs ord (Suc i) ?s' p q c"
        using True innr None by (simp add: multiply_outer_refs_step)
      moreover have "multiply_outer i (s p) (s q) res = multiply_outer (Suc i) a b c"
        using True inn None by (simp add: multiply_outer_step)
      ultimately show ?thesis
        unfolding ih sp by (auto simp: fun_eq_iff split: prod.splits)
    qed
  qed
qed

lemma multiply_refs_distinct:
  assumes "p \<noteq> q" "ord = m1_first \<or> rectangular (s q)"
  shows "multiply_refs ord s p q =
     (case multiply (s p) (s q) of (r, m1', m2') \<Rightarrow> (r, s(p := m1', q := m2')))"
proof (cases "rows (s p) = 0 \<or> rows (s q) = 0")
  case True
  then show ?thesis by (auto simp: multiply_refs_def multiply_def)
next
  case False
  then show ?thesis
    unfolding multiply_refs_def multiply_def
      multiply_outer_refs_distinct[where s=s and p=p and q=q and ord=ord, OF assms]
    by (auto simp: fun_eq_iff split: prod.splits option.splits)
qed

subsection \<open>The cache under the operations of the class\<close>

text \<open>
  Every constructor builds a matrix whose cache is fresh, and every operation of the class
  keeps it fresh: \<^verbatim>\<open>transpose\<close> (for the object and for the copy it returns), the non-const
  \<^verbatim>\<open>operator[]\<close>, which leaves the cache empty whatever the index, a write to the row made
  when the accessor returns it, \<^verbatim>\<open>multiply\<close> (for both operands and the product), and the
  comparisons, which leave the object as it was. A write through a reference kept across a
  later \<^verbatim>\<open>transpose()\<close> is not among them: see C2.
\<close>

lemma operations_keep_cache_fresh:
  fixes m m1 m2 rhs m' :: "'a::{zero,plus,times} matrix"
  shows
   "cache_fresh (matrix_default :: 'a matrix) \<and>
    cache_fresh (matrix_fill r c v :: 'a matrix) \<and>
    cache_fresh (matrix_of d :: 'a matrix) \<and>
    (cache_fresh m \<longrightarrow>
       cache_fresh (snd (transpose_m m)) \<and> (\<forall>t. fst (transpose_m m) = Inr t \<longrightarrow> cache_fresh t)) \<and>
    cache (snd (at_mut m i)) = [] \<and>
    (\<forall>n. mutate_row m i f = Inr n \<longrightarrow> cache n = []) \<and>
    (\<forall>n. assign m i j v = Inr n \<longrightarrow> cache n = []) \<and>
    (cache_fresh m1 \<and> cache_fresh m2 \<longrightarrow>
       cache_fresh (fst (snd (multiply m1 m2))) \<and> cache_fresh (snd (snd (multiply m1 m2))) \<and>
       (\<forall>p. fst (multiply m1 m2) = Inr p \<longrightarrow> cache_fresh p)) \<and>
    snd (operator_neq m rhs) = m \<and> snd (operator_eq m rhs) = m \<and>
    (mutate_row (snd (transpose_m m)) i f = Inr m' \<longrightarrow>
       data m' = (data m)[i := f (data m ! i)] \<and>
       fst (transpose_m m') = fst (transpose_m (matrix_of (data m'))) \<and>
       (rectangular m' \<longrightarrow> fst (transpose_m m') = Inr (Matrix (transpose_of (data m')) [])))"
proof -
  have ctor: "cache_fresh (matrix_default :: 'a matrix)" "cache_fresh (matrix_fill r c v :: 'a matrix)"
    "cache_fresh (matrix_of d :: 'a matrix)"
    by (simp_all add: matrix_default_def matrix_fill_def matrix_of_def cache_fresh_cleared)
  have tr: "cache_fresh m \<longrightarrow>
       cache_fresh (snd (transpose_m m)) \<and> (\<forall>t. fst (transpose_m m) = Inr t \<longrightarrow> cache_fresh t)"
    using transpose_m_fresh[of m] transpose_m_result_fresh[of m] by simp
  have mr: "\<forall>n. mutate_row m i f = Inr n \<longrightarrow> cache n = []"
    by (auto dest: mutate_row_result)
  have asg: "\<forall>n. assign m i j v = Inr n \<longrightarrow> cache n = []"
    by (auto dest: assign_cache)
  have mul: "cache_fresh m1 \<and> cache_fresh m2 \<longrightarrow>
       cache_fresh (fst (snd (multiply m1 m2))) \<and> cache_fresh (snd (snd (multiply m1 m2))) \<and>
       (\<forall>p. fst (multiply m1 m2) = Inr p \<longrightarrow> cache_fresh p)"
  proof
    assume f: "cache_fresh m1 \<and> cache_fresh m2"
    obtain r a b where mm: "multiply m1 m2 = (r, a, b)" by (cases "multiply m1 m2") auto
    from multiply_fresh[OF mm] f mm
    show "cache_fresh (fst (snd (multiply m1 m2))) \<and> cache_fresh (snd (snd (multiply m1 m2))) \<and>
       (\<forall>p. fst (multiply m1 m2) = Inr p \<longrightarrow> cache_fresh p)" by simp
  qed
  have sc: "mutate_row (snd (transpose_m m)) i f = Inr m' \<longrightarrow>
       data m' = (data m)[i := f (data m ! i)] \<and>
       fst (transpose_m m') = fst (transpose_m (matrix_of (data m'))) \<and>
       (rectangular m' \<longrightarrow> fst (transpose_m m') = Inr (Matrix (transpose_of (data m')) []))"
  proof
    assume "mutate_row (snd (transpose_m m)) i f = Inr m'"
    from mutate_row_result[OF this]
    have m': "m' = Matrix ((data m)[i := f (data m ! i)]) []" by (simp add: transpose_m_data)
    then have a: "data m' = (data m)[i := f (data m ! i)]" by simp
    have b: "m' = matrix_of (data m')" using m' by (simp add: matrix_of_def)
    have "cache_fresh m'" using m' by (simp add: cache_fresh_cleared)
    then have c: "rectangular m' \<longrightarrow> fst (transpose_m m') = Inr (Matrix (transpose_of (data m')) [])"
      using transpose_m_fst[of m'] by simp
    from b have "fst (transpose_m m') = fst (transpose_m (matrix_of (data m')))" by simp
    with a c show "data m' = (data m)[i := f (data m ! i)] \<and>
       fst (transpose_m m') = fst (transpose_m (matrix_of (data m'))) \<and>
       (rectangular m' \<longrightarrow> fst (transpose_m m') = Inr (Matrix (transpose_of (data m')) []))"
      by (intro conjI)
  qed
  show ?thesis
    by (intro conjI ctor tr at_mut_cache mr asg mul operator_neq_this operator_eq_this sc)
qed

lemma operations_keep_cache_fresh_example:
  "cache_fresh (Matrix [[1, 2, 3 :: int]] []) \<and>
   fst (transpose_m (Matrix [[1, 2, 3 :: int]] [])) = Inr (Matrix [[1], [2], [3]] []) \<and>
   cache (snd (transpose_m (Matrix [[1, 2, 3 :: int]] []))) = [Matrix [[1], [2], [3]] []] \<and>
   mutate_row (snd (transpose_m (Matrix [[1, 2, 3 :: int]] []))) 0 (\<lambda>row. row[0 := 10])
     = Inr (Matrix [[10, 2, 3]] []) \<and>
   rectangular (Matrix [[10, 2, 3 :: int]] []) \<and>
   fst (transpose_m (Matrix [[10, 2, 3 :: int]] [])) = Inr (Matrix [[10], [2], [3]] [])"
proof -
  let ?m = "Matrix [[1, 2, 3 :: int]] []"
  let ?m' = "Matrix [[10, 2, 3 :: int]] []"
  have t1: "transpose_m ?m = (Inr (Matrix [[1], [2], [3]] []), Matrix [[1, 2, 3]] [Matrix [[1], [2], [3]] []])"
    by (simp add: transpose_m_def matrix_fill_def rows_def cols_def vec_at_def vec_index_def
      assign_def at_mut_def write_row_def transpose_inner.simps transpose_outer.simps)
  have h1: "cache_fresh ?m" by (simp add: cache_fresh_def)
  have h2: "mutate_row (snd (transpose_m ?m)) 0 (\<lambda>row. row[0 := 10]) = Inr ?m'"
    by (simp add: t1 mutate_row_def at_mut_def vec_index_def write_row_def)
  have h3: "rectangular ?m'" by (simp add: rectangular_def cols_def)
  have "fst (transpose_m ?m') = Inr (Matrix (transpose_of (data ?m')) [])"
    using operations_keep_cache_fresh[where m = ?m and i = 0 and f = "\<lambda>row. row[0 := 10]" and m' = ?m'] h2 h3
    by blast
  then have "fst (transpose_m ?m') = Inr (Matrix [[10], [2], [3]] [])"
    by (simp add: transpose_of_def)
  with h1 h2 h3 t1 show ?thesis by simp
qed

subsection \<open>The product when the cache is fresh\<close>

text \<open>
  For rectangular \<open>m1\<close> and \<open>m2\<close> with at least one row each, \<open>cols m1 = rows m2\<close> and the
  cache of \<open>m2\<close> fresh, \<^verbatim>\<open>multiply\<close> returns a matrix with \<open>rows m1\<close> rows of length
  \<open>cols m2\<close>, whose entry \<open>[i][j]\<close> is the sum over \<open>k = 0, 1, ...\<close> in this order, starting from
  \<open>0\<close>, of \<open>m1[i][k] * m2[k][j]\<close>.
\<close>

lemma product_with_fresh_cache:
  assumes "rectangular m1" and "rectangular m2" and "cache_fresh m2"
    and "0 < rows m1" and "0 < rows m2" and "cols m1 = rows m2"
  shows "\<exists>p. fst (multiply m1 m2) = Inr p \<and>
           rows p = rows m1 \<and> cols p = cols m2 \<and>
           (\<forall>i<rows m1. length (data p ! i) = cols m2) \<and>
           (\<forall>i<rows m1. \<forall>j<cols m2.
              data p ! i ! j =
                foldl (\<lambda>acc k. acc + data m1 ! i ! k * data m2 ! k ! j) 0 [0..<cols m1])"
proof -
  let ?p = "Matrix (map (\<lambda>i. map (entry (data m1) (data m2) i) [0..<cols m2]) [0..<rows m1]) []"
  have r: "rows ?p = rows m1" by (simp add: rows_def)
  have ne: "data ?p \<noteq> []" using assms(4) by simp
  have c: "cols ?p = cols m2"
    using assms(4) by (simp add: cols_nonempty[OF ne])
  have len: "\<forall>i<rows m1. length (data ?p ! i) = cols m2" by simp
  have el: "\<forall>i<rows m1. \<forall>j<cols m2.
              data ?p ! i ! j =
                foldl (\<lambda>acc k. acc + data m1 ! i ! k * data m2 ! k ! j) 0 [0..<cols m1]"
  proof (intro allI impI)
    fix i j assume i: "i < rows m1" and j: "j < cols m2"
    have "length (data m1 ! i) = length (data m2)"
      using rectangular_row[OF assms(1) i] assms(6) by (simp add: rows_def)
    from entry_foldl[OF this, of j] i j assms(6)
    show "data ?p ! i ! j =
         foldl (\<lambda>acc k. acc + data m1 ! i ! k * data m2 ! k ! j) 0 [0..<cols m1]"
      by (simp add: rows_def)
  qed
  show ?thesis
  proof (intro exI conjI)
    show "fst (multiply m1 m2) = Inr ?p" by (rule multiply_ok[OF assms])
  qed (rule r c len el)+
qed

lemma product_with_fresh_cache_example:
  "rectangular (Matrix [[1], [2], [3 :: int]] []) \<and> rectangular (Matrix [[1, 2, 3 :: int]] []) \<and>
   cache_fresh (Matrix [[1, 2, 3 :: int]] []) \<and>
   0 < rows (Matrix [[1], [2], [3 :: int]] []) \<and> 0 < rows (Matrix [[1, 2, 3 :: int]] []) \<and>
   cols (Matrix [[1], [2], [3 :: int]] []) = rows (Matrix [[1, 2, 3 :: int]] []) \<and>
   (\<exists>p. fst (multiply (Matrix [[1], [2], [3]] []) (Matrix [[1, 2, 3 :: int]] [])) = Inr p \<and>
      rows p = rows (Matrix [[1], [2], [3 :: int]] []) \<and>
      cols p = cols (Matrix [[1, 2, 3 :: int]] []) \<and>
      (\<forall>i<rows (Matrix [[1], [2], [3 :: int]] []).
         length (data p ! i) = cols (Matrix [[1, 2, 3 :: int]] [])) \<and>
      (\<forall>i<rows (Matrix [[1], [2], [3 :: int]] []). \<forall>j<cols (Matrix [[1, 2, 3 :: int]] []).
         data p ! i ! j =
           foldl (\<lambda>acc k. acc + data (Matrix [[1], [2], [3 :: int]] []) ! i ! k *
                                  data (Matrix [[1, 2, 3 :: int]] []) ! k ! j)
             0 [0..<cols (Matrix [[1], [2], [3 :: int]] [])]))"
proof -
  let ?m1 = "Matrix [[1], [2], [3 :: int]] []"
  let ?m2 = "Matrix [[1, 2, 3 :: int]] []"
  have h1: "rectangular ?m1" by (simp add: rectangular_def cols_def)
  have h2: "rectangular ?m2" by (simp add: rectangular_def cols_def)
  have h3: "cache_fresh ?m2" by (simp add: cache_fresh_def)
  have h4: "0 < rows ?m1" by (simp add: rows_def)
  have h5: "0 < rows ?m2" by (simp add: rows_def)
  have h6: "cols ?m1 = rows ?m2" by (simp add: rows_def cols_def)
  show ?thesis by (intro conjI h1 h2 h3 h4 h5 h6 product_with_fresh_cache[OF h1 h2 h3 h4 h5 h6])
qed

section \<open>The claims\<close>

subsection \<open>C1: the contract of transpose\<close>

text \<open>
  C1, as amended. For every rectangular matrix \<open>m\<close> whose cache is fresh, \<^verbatim>\<open>transpose()\<close>
  returns a matrix \<open>m_T\<close> with \<open>rows m_T = cols m\<close>, with every row of length \<open>rows m\<close>
  and \<open>m_T[j][i] = m[i][j]\<close> for all \<open>i < rows m\<close> and \<open>j < cols m\<close>;
  \<open>cols m_T = rows m\<close> when \<open>m\<close> has a column, and \<open>cols m_T = 0\<close> when it has none.
\<close>

theorem transpose_contract:
  assumes "rectangular m" and "cache_fresh m"
  shows "\<exists>m_T. fst (transpose_m m) = Inr m_T \<and>
           rows m_T = cols m \<and>
           (0 < cols m \<longrightarrow> cols m_T = rows m) \<and>
           (cols m = 0 \<longrightarrow> cols m_T = 0) \<and>
           (\<forall>j<cols m. length (data m_T ! j) = rows m) \<and>
           (\<forall>i<rows m. \<forall>j<cols m. data m_T ! j ! i = data m ! i ! j)"
proof -
  let ?t = "Matrix (transpose_of (data m)) []"
  have r: "rows ?t = cols m"
    by (simp add: rows_def cols_def length_transpose_of)
  have row: "data ?t ! j = map (\<lambda>row. row ! j) (data m)" if "j < cols m" for j
  proof -
    from that have "data m \<noteq> []" by (auto simp: cols_def)
    with that show ?thesis by (simp add: nth_transpose_of cols_nonempty)
  qed
  have c1: "0 < cols m \<longrightarrow> cols ?t = rows m"
  proof
    assume pos: "0 < cols m"
    with r have "data ?t \<noteq> []" by (auto simp: rows_def)
    then have "cols ?t = length (data ?t ! 0)" by (rule cols_nonempty)
    with row[OF pos] show "cols ?t = rows m" by (simp add: rows_def)
  qed
  have c0: "cols m = 0 \<longrightarrow> cols ?t = 0"
    using r by (simp add: cols_def[of ?t] rows_def)
  have len: "\<forall>j<cols m. length (data ?t ! j) = rows m"
    using row by (simp add: rows_def)
  have el: "\<forall>i<rows m. \<forall>j<cols m. data ?t ! j ! i = data m ! i ! j"
    using row by (simp add: rows_def)
  show ?thesis
  proof (intro exI conjI)
    show "fst (transpose_m m) = Inr ?t" by (rule transpose_m_fst[OF assms])
  qed (rule r c1 c0 len el)+
qed

theorem transpose_contract_witness:
  "rectangular (Matrix [[1, 2, 3], [4, 5, 6 :: int]] []) \<and>
   cache_fresh (Matrix [[1, 2, 3], [4, 5, 6 :: int]] []) \<and>
   (\<exists>m_T. fst (transpose_m (Matrix [[1, 2, 3], [4, 5, 6 :: int]] [])) = Inr m_T \<and>
      rows m_T = cols (Matrix [[1, 2, 3], [4, 5, 6 :: int]] []) \<and>
      (0 < cols (Matrix [[1, 2, 3], [4, 5, 6 :: int]] []) \<longrightarrow>
         cols m_T = rows (Matrix [[1, 2, 3], [4, 5, 6 :: int]] [])) \<and>
      (cols (Matrix [[1, 2, 3], [4, 5, 6 :: int]] []) = 0 \<longrightarrow> cols m_T = 0) \<and>
      (\<forall>j<cols (Matrix [[1, 2, 3], [4, 5, 6 :: int]] []).
          length (data m_T ! j) = rows (Matrix [[1, 2, 3], [4, 5, 6 :: int]] [])) \<and>
      (\<forall>i<rows (Matrix [[1, 2, 3], [4, 5, 6 :: int]] []).
         \<forall>j<cols (Matrix [[1, 2, 3], [4, 5, 6 :: int]] []).
           data m_T ! j ! i = data (Matrix [[1, 2, 3], [4, 5, 6 :: int]] []) ! i ! j))"
proof -
  let ?m = "Matrix [[1, 2, 3], [4, 5, 6 :: int]] []"
  have h1: "rectangular ?m" by (simp add: rectangular_def cols_def)
  have h2: "cache_fresh ?m" by (simp add: cache_fresh_def)
  show ?thesis by (intro conjI h1 h2 transpose_contract[OF h1 h2])
qed

text \<open>
  C1 as the specification states it asks \<open>cols m_T = rows m\<close> of every rectangular matrix.
  The matrix built by \<^verbatim>\<open>matrix(1, 0)\<close> has one row and no column; its transpose has no
  row, and \<^verbatim>\<open>cols()\<close> of a matrix without rows is 0, not 1.
\<close>

theorem transpose_cols_counterexample:
  "rectangular (matrix_fill 1 0 (0 :: int)) \<and> cache_fresh (matrix_fill 1 0 (0 :: int)) \<and>
   fst (transpose_m (matrix_fill 1 0 (0 :: int))) = Inr (Matrix [] []) \<and>
   cols (Matrix [] [] :: int matrix) \<noteq> rows (matrix_fill 1 0 (0 :: int))"
  by (simp add: rectangular_def cache_fresh_def rows_def cols_def matrix_fill_def transpose_m_def
      vec_at_def transpose_outer.simps)

subsection \<open>C2: the cache is never stale\<close>

text \<open>
  C2. The non-const \<^verbatim>\<open>operator[]\<close> empties the cache and returns a reference to the row;
  the reference stays usable after a later \<^verbatim>\<open>transpose()\<close> has filled the cache again.
  On \<^verbatim>\<open>{{1, 2, 3}}\<close>: take the reference to row 0, call \<^verbatim>\<open>transpose()\<close>, write
  \<^verbatim>\<open>{10, 2, 3}\<close> through the reference. The cache is then not empty and is not the transpose
  of the rows, and the next \<^verbatim>\<open>transpose()\<close> returns the old \<^verbatim>\<open>{{1}, {2}, {3}}\<close>, not
  \<^verbatim>\<open>{{10}, {2}, {3}}\<close>.
\<close>

theorem stale_cache_after_kept_reference:
  "at_mut (Matrix [[1, 2, 3 :: int]] []) 0 = (Inr [1, 2, 3], Matrix [[1, 2, 3]] []) \<and>
   transpose_m (Matrix [[1, 2, 3 :: int]] []) =
     (Inr (Matrix [[1], [2], [3]] []), Matrix [[1, 2, 3]] [Matrix [[1], [2], [3]] []]) \<and>
   write_row (Matrix [[1, 2, 3 :: int]] [Matrix [[1], [2], [3]] []]) 0 [10, 2, 3] =
     Matrix [[10, 2, 3]] [Matrix [[1], [2], [3]] []] \<and>
   \<not> cache_fresh (Matrix [[10, 2, 3 :: int]] [Matrix [[1], [2], [3]] []]) \<and>
   transpose_of [[10, 2, 3 :: int]] = [[10], [2], [3]] \<and>
   fst (transpose_m (Matrix [[10, 2, 3 :: int]] [Matrix [[1], [2], [3]] []])) =
     Inr (Matrix [[1], [2], [3]] [])"
  by (simp add: transpose_m_def matrix_fill_def rows_def cols_def vec_at_def vec_index_def
      assign_def at_mut_def write_row_def cache_fresh_def transpose_of_def
      transpose_inner.simps transpose_outer.simps)

subsection \<open>C3: the product\<close>

text \<open>
  C3. With an operand \<open>m2\<close> whose cache is stale, \<^verbatim>\<open>multiply\<close> computes with the cached
  transpose and not with the rows of \<open>m2\<close>. The operand is \<^verbatim>\<open>{{1, 2}, {3, 4}}\<close> after a
  reference to row 0 was taken, \<^verbatim>\<open>transpose()\<close> called, and \<^verbatim>\<open>{100, 2}\<close> written through the
  reference; \<open>m1\<close> is \<^verbatim>\<open>{{1, 0}}\<close>. Both are rectangular with \<open>cols m1 = rows m2\<close>. The product
  returned is \<^verbatim>\<open>{{1, 2}}\<close>; the sum of products for entry \<open>[0][0]\<close> is 100.
\<close>

theorem multiply_with_stale_cache:
  "at_mut (Matrix [[1, 2], [3, 4 :: int]] []) 0 = (Inr [1, 2], Matrix [[1, 2], [3, 4]] []) \<and>
   snd (transpose_m (Matrix [[1, 2], [3, 4 :: int]] [])) =
     Matrix [[1, 2], [3, 4]] [Matrix [[1, 3], [2, 4]] []] \<and>
   write_row (Matrix [[1, 2], [3, 4 :: int]] [Matrix [[1, 3], [2, 4]] []]) 0 [100, 2] =
     Matrix [[100, 2], [3, 4]] [Matrix [[1, 3], [2, 4]] []] \<and>
   0 < rows (Matrix [[1, 0 :: int]] []) \<and>
   0 < rows (Matrix [[100, 2], [3, 4 :: int]] [Matrix [[1, 3], [2, 4]] []]) \<and>
   cols (Matrix [[1, 0 :: int]] []) =
     rows (Matrix [[100, 2], [3, 4 :: int]] [Matrix [[1, 3], [2, 4]] []]) \<and>
   fst (multiply (Matrix [[1, 0 :: int]] [])
                 (Matrix [[100, 2], [3, 4]] [Matrix [[1, 3], [2, 4]] []])) =
     Inr (Matrix [[1, 2]] []) \<and>
   entry [[1, 0 :: int]] [[100, 2], [3, 4]] 0 0 = 100"
  by (simp add: multiply_def multiply_step_def dot_def dot_sum_def entry_def transpose_m_def matrix_fill_def
      rows_def cols_def vec_at_def vec_index_def assign_def at_mut_def write_row_def
      transpose_inner.simps transpose_outer.simps dot_loop.simps
      multiply_inner.simps multiply_outer.simps)

text \<open>Both operands of this product are rectangular.\<close>

lemma stale_operand_rectangular:
  "rectangular (Matrix [[1, 0 :: int]] []) \<and>
   rectangular (Matrix [[100, 2], [3, 4 :: int]] [Matrix [[1, 3], [2, 4]] []])"
  by (simp add: rectangular_def cols_def)

subsection \<open>C4: row access out of range\<close>

text \<open>
  C4. Row access with an index that is not a row: the const \<^verbatim>\<open>operator[]\<close> throws
  \<^verbatim>\<open>std::out_of_range\<close>; the non-const \<^verbatim>\<open>operator[]\<close> empties the cache and indexes
  \<^verbatim>\<open>_data\<close> without a check, so it throws nothing. Evaluated on the one-row matrix
  \<^verbatim>\<open>{{1, 2, 3}}\<close> at index 1.
\<close>

theorem row_access_out_of_range:
  "at (Matrix [[1, 2, 3 :: int]] []) 1 = Inl out_of_range \<and>
   fst (at_mut (Matrix [[1, 2, 3 :: int]] []) 1) = Inl undefined_behaviour \<and>
   fst (at_mut (Matrix [[1, 2, 3 :: int]] []) 1) \<noteq> Inl out_of_range"
  by (simp add: at_def at_mut_def vec_at_def vec_index_def)

subsection \<open>C5: an operand without rows\<close>

text \<open>
  C5. \<^verbatim>\<open>multiply\<close> throws \<^verbatim>\<open>std::out_of_range\<close> if and only if \<open>rows m1 = 0\<close> or
  \<open>rows m2 = 0\<close>, for all operands whatever; and then both operands are as they were.
\<close>

theorem multiply_empty_operand:
  "(fst (multiply m1 m2) = Inl out_of_range) = (rows m1 = 0 \<or> rows m2 = 0) \<and>
   (rows m1 = 0 \<or> rows m2 = 0 \<longrightarrow> snd (multiply m1 m2) = (m1, m2))"
proof (cases "rows m1 = 0 \<or> rows m2 = 0")
  case True
  then show ?thesis by (auto simp: multiply_def)
next
  case False
  let ?res = "matrix_fill (rows m1) (cols m2) 0 :: 'a matrix"
  obtain r a b c where out: "multiply_outer 0 m1 m2 ?res = (r, a, b, c)"
    by (cases "multiply_outer 0 m1 m2 ?res") auto
  from multiply_outer_no_out_of_range[OF out] False out show ?thesis
    by (cases r) (simp_all add: multiply_def)
qed

theorem multiply_empty_operand_witness:
  "(fst (multiply (Matrix [] []) (Matrix [[1, 2, 3 :: int]] [])) = Inl out_of_range) \<and>
   rows (Matrix [] [] :: int matrix) = 0 \<and>
   snd (multiply (Matrix [] []) (Matrix [[1, 2, 3 :: int]] [])) =
     (Matrix [] [], Matrix [[1, 2, 3]] [])"
proof -
  have h: "rows (Matrix [] [] :: int matrix) = 0" by (simp add: rows_def)
  from multiply_empty_operand[of "Matrix [] []" "Matrix [[1, 2, 3 :: int]] []"] h
  show ?thesis by simp
qed

subsection \<open>C6: mismatched dimensions\<close>

text \<open>
  C6, as amended. \<^verbatim>\<open>dot\<close> fails with \<^verbatim>\<open>invalid_dimension\<close> exactly when the two lengths
  differ, and the error carries the two lengths. For rectangular \<open>m1\<close> and \<open>m2\<close> with at
  least one row each, \<open>cols m1 \<noteq> rows m2\<close> and \<open>m2\<close> with at least one column (the cache
  of \<open>m2\<close> fresh), \<^verbatim>\<open>multiply\<close> fails with that error, built from \<open>cols m1\<close> and \<open>rows m2\<close>.
\<close>

theorem dimension_mismatch:
  "((\<exists>s1 s2. dot v1 v2 = Inl (invalid_dimension s1 s2)) = (length v1 \<noteq> length v2)) \<and>
   (length v1 \<noteq> length v2 \<longrightarrow> dot v1 v2 = Inl (invalid_dimension (length v1) (length v2))) \<and>
   (rectangular m1 \<and> rectangular m2 \<and> cache_fresh m2 \<and> 0 < rows m1 \<and> 0 < rows m2 \<and>
    cols m1 \<noteq> rows m2 \<and> 0 < cols m2 \<longrightarrow>
      fst (multiply m1 m2) = Inl (invalid_dimension (cols m1) (rows m2)))"
proof (intro conjI impI)
  show "(\<exists>s1 s2. dot v1 v2 = Inl (invalid_dimension s1 s2)) = (length v1 \<noteq> length v2)"
    by (cases "length v1 = length v2") (simp_all add: dot_ok dot_mismatch)
next
  assume "length v1 \<noteq> length v2"
  then show "dot v1 v2 = Inl (invalid_dimension (length v1) (length v2))" by (rule dot_mismatch)
next
  assume "rectangular m1 \<and> rectangular m2 \<and> cache_fresh m2 \<and> 0 < rows m1 \<and> 0 < rows m2 \<and>
    cols m1 \<noteq> rows m2 \<and> 0 < cols m2"
  then show "fst (multiply m1 m2) = Inl (invalid_dimension (cols m1) (rows m2))"
    by (intro multiply_mismatch) simp_all
qed

theorem dimension_mismatch_witness:
  "dot [1, 2 :: int] [1, 2, 3] = Inl (invalid_dimension 2 3) \<and>
   rectangular (Matrix [[1, 2 :: int]] []) \<and> rectangular (Matrix [[1, 2, 3 :: int]] []) \<and>
   cache_fresh (Matrix [[1, 2, 3 :: int]] []) \<and>
   0 < rows (Matrix [[1, 2 :: int]] []) \<and> 0 < rows (Matrix [[1, 2, 3 :: int]] []) \<and>
   cols (Matrix [[1, 2 :: int]] []) \<noteq> rows (Matrix [[1, 2, 3 :: int]] []) \<and>
   0 < cols (Matrix [[1, 2, 3 :: int]] []) \<and>
   fst (multiply (Matrix [[1, 2 :: int]] []) (Matrix [[1, 2, 3 :: int]] [])) =
     Inl (invalid_dimension 2 1)"
proof -
  let ?m1 = "Matrix [[1, 2 :: int]] []"
  let ?m2 = "Matrix [[1, 2, 3 :: int]] []"
  have h: "rectangular ?m1" "rectangular ?m2" "cache_fresh ?m2" "0 < rows ?m1" "0 < rows ?m2"
    "cols ?m1 \<noteq> rows ?m2" "0 < cols ?m2"
    by (simp_all add: rectangular_def cache_fresh_def rows_def cols_def)
  have v: "length [1, 2 :: int] \<noteq> length [1, 2, 3 :: int]" by simp
  have c: "cols ?m1 = 2" "rows ?m2 = 1" by (simp_all add: rows_def cols_def)
  from dimension_mismatch[of "[1, 2 :: int]" "[1, 2, 3]" ?m1 ?m2] h v
  have "dot [1, 2 :: int] [1, 2, 3] = Inl (invalid_dimension (length [1, 2 :: int]) (length [1, 2, 3 :: int]))"
    and "fst (multiply ?m1 ?m2) = Inl (invalid_dimension (cols ?m1) (rows ?m2))"
    by blast+
  then have "dot [1, 2 :: int] [1, 2, 3] = Inl (invalid_dimension 2 3)"
    and "fst (multiply ?m1 ?m2) = Inl (invalid_dimension 2 1)"
    by (simp_all add: c)
  with h show ?thesis by (intro conjI)
qed

text \<open>
  C6 as the specification states it has no condition on the columns of \<open>m2\<close>. When \<open>m2\<close> has
  rows and no column, the inner loop of \<^verbatim>\<open>multiply\<close> never runs, \<^verbatim>\<open>dot\<close> is never called, and
  the mismatched product returns a matrix: here a 1 by 2 matrix times \<^verbatim>\<open>matrix(1, 0)\<close>.
\<close>

theorem lazy_check_counterexample:
  "rectangular (Matrix [[1, 2 :: int]] []) \<and> rectangular (matrix_fill 1 0 (0 :: int)) \<and>
   0 < rows (Matrix [[1, 2 :: int]] []) \<and> 0 < rows (matrix_fill 1 0 (0 :: int)) \<and>
   cols (Matrix [[1, 2 :: int]] []) \<noteq> rows (matrix_fill 1 0 (0 :: int)) \<and>
   fst (multiply (Matrix [[1, 2 :: int]] []) (matrix_fill 1 0 0)) = Inr (Matrix [[]] [])"
  by (simp add: rectangular_def rows_def cols_def matrix_fill_def multiply_def
      multiply_inner.simps multiply_outer.simps)

subsection \<open>C7: transposing twice\<close>

text \<open>
  C7, as amended. For a rectangular matrix \<open>m\<close> with at least one row and at least one
  column (its cache fresh), the transpose of the transpose has the rows of \<open>m\<close> and
  \<^verbatim>\<open>operator==\<close> finds it equal to \<open>m\<close>; for a matrix without rows, \<^verbatim>\<open>transpose()\<close> returns
  the matrix itself.
\<close>

theorem transpose_involution:
  "(rectangular m \<and> cache_fresh m \<and> 0 < rows m \<and> 0 < cols m \<longrightarrow>
      (\<exists>t t2. fst (transpose_m m) = Inr t \<and> fst (transpose_m t) = Inr t2 \<and>
               data t2 = data m \<and> fst (operator_eq t2 m) = Inr True)) \<and>
   (cache_fresh m \<and> rows m = 0 \<longrightarrow>
      fst (transpose_m m) = Inr m \<and> fst (operator_eq m m) = Inr True)"
proof (intro conjI impI)
  assume h: "rectangular m \<and> cache_fresh m \<and> 0 < rows m \<and> 0 < cols m"
  let ?t = "Matrix (transpose_of (data m)) []"
  let ?t2 = "Matrix (transpose_of (transpose_of (data m))) []"
  have ne: "data m \<noteq> []" using h by (auto simp: rows_def)
  have all: "\<forall>row\<in>set (data m). length row = cols m" using h by (simp add: rectangular_def)
  have a: "fst (transpose_m m) = Inr ?t" using h by (simp add: transpose_m_fst)
  have rt: "rectangular ?t" using h by (simp add: rectangular_transposed)
  have b: "fst (transpose_m ?t) = Inr ?t2"
    using transpose_m_fst[OF rt cache_fresh_cleared] by simp
  have c: "data ?t2 = data m" using transpose_of_twice[OF ne all] h by simp
  have r2: "rectangular ?t2" using h rectangular_data[OF c] by simp
  have "fst (operator_eq ?t2 m) = Inr (data ?t2 = data m)"
    using operator_eq_ok[OF r2, of m] rectangular_eq_data[OF r2, of m] h by simp
  with c have d: "fst (operator_eq ?t2 m) = Inr True" by simp
  from a b c d
  show "\<exists>t t2. fst (transpose_m m) = Inr t \<and> fst (transpose_m t) = Inr t2 \<and>
               data t2 = data m \<and> fst (operator_eq t2 m) = Inr True"
    by blast
next
  assume h: "cache_fresh m \<and> rows m = 0"
  then have d: "data m = []" by (simp add: rows_def)
  with h have c: "cache m = []" by (cases "cache m") (simp_all add: cache_fresh_def)
  from d c show "fst (transpose_m m) = Inr m" by (simp add: transpose_m_def)
  have r: "rectangular m" using d by (simp add: rectangular_def)
  show "fst (operator_eq m m) = Inr True" using operator_eq_ok[OF r r] by simp
qed

theorem transpose_involution_witness:
  "rectangular (Matrix [[1, 2, 3], [4, 5, 6 :: int]] []) \<and>
   cache_fresh (Matrix [[1, 2, 3], [4, 5, 6 :: int]] []) \<and>
   0 < rows (Matrix [[1, 2, 3], [4, 5, 6 :: int]] []) \<and>
   0 < cols (Matrix [[1, 2, 3], [4, 5, 6 :: int]] []) \<and>
   (\<exists>t t2. fst (transpose_m (Matrix [[1, 2, 3], [4, 5, 6 :: int]] [])) = Inr t \<and>
            fst (transpose_m t) = Inr t2 \<and>
            data t2 = data (Matrix [[1, 2, 3], [4, 5, 6 :: int]] []) \<and>
            fst (operator_eq t2 (Matrix [[1, 2, 3], [4, 5, 6 :: int]] [])) = Inr True) \<and>
   cache_fresh (matrix_default :: int matrix) \<and> rows (matrix_default :: int matrix) = 0 \<and>
   fst (transpose_m (matrix_default :: int matrix)) = Inr matrix_default \<and>
   fst (operator_eq (matrix_default :: int matrix) matrix_default) = Inr True"
proof -
  let ?m = "Matrix [[1, 2, 3], [4, 5, 6 :: int]] []"
  let ?e = "matrix_default :: int matrix"
  have h: "rectangular ?m" "cache_fresh ?m" "0 < rows ?m" "0 < cols ?m"
    by (simp_all add: rectangular_def cache_fresh_def rows_def cols_def)
  have g: "cache_fresh ?e" "rows ?e = 0"
    by (simp_all add: matrix_default_def cache_fresh_def rows_def)
  from transpose_involution[of ?m] h
  have a: "\<exists>t t2. fst (transpose_m ?m) = Inr t \<and> fst (transpose_m t) = Inr t2 \<and>
            data t2 = data ?m \<and> fst (operator_eq t2 ?m) = Inr True"
    by blast
  from transpose_involution[of ?e] g
  have b: "fst (transpose_m ?e) = Inr ?e" "fst (operator_eq ?e ?e) = Inr True"
    by blast+
  from h g a b show ?thesis by (intro conjI)
qed

text \<open>
  C7 as the specification states it covers every rectangular matrix with a row. The matrix
  \<^verbatim>\<open>matrix(1, 0)\<close> has one row and no column: its transpose has no rows, the transpose of
  that is again the matrix without rows, and \<^verbatim>\<open>operator==\<close> finds it different from the
  one-row matrix.
\<close>

theorem transpose_twice_counterexample:
  "rectangular (matrix_fill 1 0 (0 :: int)) \<and> cache_fresh (matrix_fill 1 0 (0 :: int)) \<and>
   0 < rows (matrix_fill 1 0 (0 :: int)) \<and>
   fst (transpose_m (matrix_fill 1 0 (0 :: int))) = Inr (Matrix [] []) \<and>
   fst (transpose_m (Matrix [] [] :: int matrix)) = Inr (Matrix [] []) \<and>
   fst (operator_eq (Matrix [] []) (matrix_fill 1 0 (0 :: int))) = Inr False"
  by (simp add: rectangular_def cache_fresh_def rows_def cols_def matrix_fill_def transpose_m_def
      vec_at_def transpose_outer.simps operator_eq_def operator_neq_def)

subsection \<open>C8: equality\<close>

text \<open>
  C8. For rectangular \<open>a\<close> and \<open>b\<close>, \<^verbatim>\<open>a == b\<close> is true exactly when the two have the same
  \<open>rows\<close>, the same \<open>cols\<close> and equal elements at every position; \<^verbatim>\<open>a != b\<close> is its
  negation; both leave \<open>a\<close> as it was, and neither result depends on what the two caches
  hold.
\<close>

theorem equality_contract:
  assumes "rectangular a" and "rectangular b"
  shows "fst (operator_eq a b) =
           Inr (rows a = rows b \<and> cols a = cols b \<and>
                (\<forall>i<rows a. \<forall>j<cols a. data a ! i ! j = data b ! i ! j)) \<and>
         fst (operator_neq a b) =
           Inr (\<not> (rows a = rows b \<and> cols a = cols b \<and>
                (\<forall>i<rows a. \<forall>j<cols a. data a ! i ! j = data b ! i ! j))) \<and>
         snd (operator_eq a b) = a \<and> snd (operator_neq a b) = a \<and>
         fst (operator_eq (Matrix (data a) ca) (Matrix (data b) cb)) = fst (operator_eq a b) \<and>
         fst (operator_neq (Matrix (data a) ca) (Matrix (data b) cb)) = fst (operator_neq a b)"
proof -
  let ?a = "Matrix (data a) ca" and ?b = "Matrix (data b) cb"
  have ra: "rectangular ?a" using assms(1) rectangular_data[of ?a a] by simp
  have rb: "rectangular ?b" using assms(2) rectangular_data[of ?b b] by simp
  have sh: "rows ?a = rows a" "rows ?b = rows b" "cols ?a = cols a" "cols ?b = cols b"
    by (simp_all add: rows_def cols_def)
  have e: "fst (operator_eq ?a ?b) = fst (operator_eq a b)"
    unfolding operator_eq_ok[OF ra rb] operator_eq_ok[OF assms] sh by simp
  have n: "fst (operator_neq ?a ?b) = fst (operator_neq a b)"
    unfolding operator_neq_ok[OF ra rb] operator_neq_ok[OF assms] sh by simp
  show ?thesis
    by (intro conjI operator_eq_ok[OF assms] operator_neq_ok[OF assms] operator_eq_this
        operator_neq_this e n)
qed

theorem equality_contract_witness:
  "rectangular (Matrix [[1, 2], [3, 4 :: int]] [Matrix [[1, 3], [2, 4]] []]) \<and>
   rectangular (Matrix [[1, 2], [3, 5 :: int]] []) \<and>
   fst (operator_eq (Matrix [[1, 2], [3, 4 :: int]] [Matrix [[1, 3], [2, 4]] []])
                    (Matrix [[1, 2], [3, 5]] [])) = Inr False \<and>
   fst (operator_neq (Matrix [[1, 2], [3, 4 :: int]] [Matrix [[1, 3], [2, 4]] []])
                     (Matrix [[1, 2], [3, 5]] [])) = Inr True"
proof -
  let ?a = "Matrix [[1, 2], [3, 4 :: int]] [Matrix [[1, 3], [2, 4]] []]"
  let ?b = "Matrix [[1, 2], [3, 5 :: int]] []"
  have h1: "rectangular ?a" by (simp add: rectangular_def cols_def)
  have h2: "rectangular ?b" by (simp add: rectangular_def cols_def)
  have d: "(rows ?a = rows ?b \<and> cols ?a = cols ?b \<and>
     (\<forall>i<rows ?a. \<forall>j<cols ?a. data ?a ! i ! j = data ?b ! i ! j)) = False"
    unfolding rectangular_eq_data[OF h1 h2] by simp
  from equality_contract[OF h1 h2, of "[]" "[]"]
  have "fst (operator_eq ?a ?b) = Inr False" and "fst (operator_neq ?a ?b) = Inr True"
    unfolding d by simp_all
  with h1 h2 show ?thesis by (intro conjI)
qed

subsection \<open>C9: what multiply does to its operands\<close>

text \<open>
  C9, as amended. \<^verbatim>\<open>multiply\<close> leaves the rows of every object as they were, whatever the
  outcome, and touches no object but its operands. When \<open>m1\<close> and \<open>m2\<close> are different
  objects with a row each and \<open>m2\<close> is rectangular with a column, it leaves the cache of
  \<open>m1\<close> empty and the cache of \<open>m2\<close> non-empty (holding the transpose of \<open>m2\<close> when its cache
  was fresh). When both are one rectangular object with a row and a column, the cache of
  that object is left non-empty if \<^verbatim>\<open>m1[i]\<close> is evaluated before \<^verbatim>\<open>m2.transpose()\<close>, and empty
  if after. When \<open>m2\<close> has no column, every object, caches included, is as it was.
\<close>

theorem multiply_side_effects:
  "(\<forall>x. data (snd (multiply_refs ord s p q) x) = data (s x)) \<and>
   (\<forall>x. x \<noteq> p \<and> x \<noteq> q \<longrightarrow> snd (multiply_refs ord s p q) x = s x) \<and>
   (p \<noteq> q \<and> 0 < rows (s p) \<and> 0 < rows (s q) \<and> 0 < cols (s q) \<and> rectangular (s q) \<longrightarrow>
      cache (snd (multiply_refs ord s p q) p) = [] \<and>
      cache (snd (multiply_refs ord s p q) q) \<noteq> [] \<and>
      (cache_fresh (s q) \<longrightarrow>
         cache (snd (multiply_refs ord s p q) q) = [Matrix (transpose_of (data (s q))) []])) \<and>
   (p = q \<and> 0 < rows (s p) \<and> 0 < cols (s p) \<and> rectangular (s p) \<longrightarrow>
      (ord = m1_first \<longrightarrow> cache (snd (multiply_refs ord s p q) p) \<noteq> []) \<and>
      (ord = transpose_first \<longrightarrow> cache (snd (multiply_refs ord s p q) p) = [])) \<and>
   (cols (s q) = 0 \<longrightarrow> snd (multiply_refs ord s p q) = s)"
proof (intro conjI allI impI)
  fix x show "data (snd (multiply_refs ord s p q) x) = data (s x)" by (rule multiply_refs_data)
next
  fix x assume "x \<noteq> p \<and> x \<noteq> q"
  then show "snd (multiply_refs ord s p q) x = s x" by (intro multiply_refs_others) simp_all
next
  assume h: "p \<noteq> q \<and> 0 < rows (s p) \<and> 0 < rows (s q) \<and> 0 < cols (s q) \<and> rectangular (s q)"
  then have c: "(p \<noteq> q \<longrightarrow> cache (snd (multiply_refs ord s p q) p) = [] \<and>
                    cache (snd (multiply_refs ord s p q) q) \<noteq> [])"
    using multiply_refs_caches[of s p q ord] by blast
  from c h show "cache (snd (multiply_refs ord s p q) p) = []" by simp
  from c h show ne: "cache (snd (multiply_refs ord s p q) q) \<noteq> []" by simp
  assume f: "cache_fresh (s q)"
  have "cache_fresh (snd (multiply_refs ord s p q) q)"
    using multiply_refs_fresh[of p q s ord] h f by simp
  from cache_fresh_nonempty[OF this ne]
  show "cache (snd (multiply_refs ord s p q) q) = [Matrix (transpose_of (data (s q))) []]"
    by (simp add: multiply_refs_data)
next
  assume h: "p = q \<and> 0 < rows (s p) \<and> 0 < cols (s p) \<and> rectangular (s p)"
  assume o: "ord = m1_first"
  from h have "0 < rows (s p)" "0 < rows (s q)" "0 < cols (s q)" "rectangular (s q)" by auto
  from multiply_refs_caches[OF this, of ord] h o
  show "cache (snd (multiply_refs ord s p q) p) \<noteq> []" by auto
next
  assume h: "p = q \<and> 0 < rows (s p) \<and> 0 < cols (s p) \<and> rectangular (s p)"
  assume o: "ord = transpose_first"
  from h have "0 < rows (s p)" "0 < rows (s q)" "0 < cols (s q)" "rectangular (s q)" by auto
  from multiply_refs_caches[OF this, of ord] h o
  show "cache (snd (multiply_refs ord s p q) p) = []" by auto
next
  assume "cols (s q) = 0"
  then show "snd (multiply_refs ord s p q) = s" by (rule multiply_refs_no_columns)
qed

theorem multiply_side_effects_witness:
  "0 < rows (Matrix [[1], [2], [3 :: int]] [Matrix [[1, 2, 3]] []]) \<and>
   0 < rows (Matrix [[1, 2, 3 :: int]] []) \<and> 0 < cols (Matrix [[1, 2, 3 :: int]] []) \<and>
   rectangular (Matrix [[1, 2, 3 :: int]] []) \<and> cache_fresh (Matrix [[1, 2, 3 :: int]] []) \<and>
   cache (snd (multiply_refs transpose_first
            (store2 (Matrix [[1], [2], [3 :: int]] [Matrix [[1, 2, 3]] []]) (Matrix [[1, 2, 3]] []))
            0 (Suc 0)) 0) = [] \<and>
   cache (snd (multiply_refs transpose_first
            (store2 (Matrix [[1], [2], [3 :: int]] [Matrix [[1, 2, 3]] []]) (Matrix [[1, 2, 3]] []))
            0 (Suc 0)) (Suc 0)) = [Matrix [[1], [2], [3]] []] \<and>
   0 < rows (Matrix [[1, 2], [3, 4 :: int]] []) \<and> 0 < cols (Matrix [[1, 2], [3, 4 :: int]] []) \<and>
   rectangular (Matrix [[1, 2], [3, 4 :: int]] []) \<and>
   cache (snd (multiply_refs m1_first
            (store2 (Matrix [[1, 2], [3, 4 :: int]] []) (Matrix [] [])) 0 0) 0) \<noteq> [] \<and>
   cache (snd (multiply_refs transpose_first
            (store2 (Matrix [[1, 2], [3, 4 :: int]] []) (Matrix [] [])) 0 0) 0) = [] \<and>
   cols (matrix_fill 1 0 (0 :: int)) = 0 \<and>
   snd (multiply_refs m1_first
          (store2 (Matrix [[1 :: int]] [Matrix [[1]] []]) (matrix_fill 1 0 0)) 0 (Suc 0)) =
     store2 (Matrix [[1 :: int]] [Matrix [[1]] []]) (matrix_fill 1 0 0)"
proof -
  let ?m1 = "Matrix [[1], [2], [3 :: int]] [Matrix [[1, 2, 3]] []]"
  let ?m2 = "Matrix [[1, 2, 3 :: int]] []"
  let ?m = "Matrix [[1, 2], [3, 4 :: int]] []"
  let ?s = "store2 ?m1 ?m2"
  let ?t = "store2 ?m (Matrix [] [])"
  let ?u = "store2 (Matrix [[1 :: int]] [Matrix [[1]] []]) (matrix_fill 1 0 0)"
  have h: "0 < rows ?m1" "0 < rows ?m2" "0 < cols ?m2" "rectangular ?m2" "cache_fresh ?m2"
    by (simp_all add: rows_def cols_def rectangular_def cache_fresh_def)
  have g: "0 < rows ?m" "0 < cols ?m" "rectangular ?m"
    by (simp_all add: rows_def cols_def rectangular_def)
  have z: "cols (matrix_fill 1 0 (0 :: int)) = 0" by (simp add: cols_def matrix_fill_def)
  have t: "transpose_of (data ?m2) = [[1], [2], [3]]" by (simp add: transpose_of_def)
  from multiply_side_effects[of transpose_first ?s 0 "Suc 0"] h
  have a: "cache (snd (multiply_refs transpose_first ?s 0 (Suc 0)) 0) = []"
    and b: "cache (snd (multiply_refs transpose_first ?s 0 (Suc 0)) (Suc 0)) =
              [Matrix (transpose_of (data ?m2)) []]"
    by (simp_all add: store2_0 store2_1)
  from multiply_side_effects[of m1_first ?t 0 0] g
  have c: "cache (snd (multiply_refs m1_first ?t 0 0) 0) \<noteq> []"
    by (simp add: store2_0)
  from multiply_side_effects[of transpose_first ?t 0 0] g
  have d: "cache (snd (multiply_refs transpose_first ?t 0 0) 0) = []"
    by (simp add: store2_0)
  from multiply_side_effects[of m1_first ?u 0 "Suc 0"] z
  have e: "snd (multiply_refs m1_first ?u 0 (Suc 0)) = ?u"
    by (simp add: store2_1)
  from h g z a b[unfolded t] c d e show ?thesis by (intro conjI)
qed

text \<open>
  C9 as the specification states it has \<^verbatim>\<open>multiply\<close> clear the cache of \<open>m1\<close> always. With
  \<open>m2\<close> = \<^verbatim>\<open>matrix(1, 0)\<close> the inner loop never runs, \<^verbatim>\<open>m1[i]\<close> is never evaluated, and
  a one-by-one \<open>m1\<close> keeps its cached transpose through a product that returns normally,
  in either order of evaluation.
\<close>

theorem multiply_keeps_cache_counterexample:
  "0 < rows (Matrix [[1 :: int]] [Matrix [[1]] []]) \<and> 0 < rows (matrix_fill 1 0 (0 :: int)) \<and>
   cols (Matrix [[1 :: int]] [Matrix [[1]] []]) = rows (matrix_fill 1 0 (0 :: int)) \<and>
   cache_fresh (Matrix [[1 :: int]] [Matrix [[1]] []]) \<and>
   multiply (Matrix [[1 :: int]] [Matrix [[1]] []]) (matrix_fill 1 0 0) =
     (Inr (Matrix [[]] []), Matrix [[1]] [Matrix [[1]] []], Matrix [[]] []) \<and>
   cache (Matrix [[1 :: int]] [Matrix [[1]] []]) \<noteq> [] \<and>
   fst (multiply_refs m1_first
          (store2 (Matrix [[1 :: int]] [Matrix [[1]] []]) (matrix_fill 1 0 0)) 0 (Suc 0)) =
     Inr (Matrix [[]] []) \<and>
   snd (multiply_refs m1_first
          (store2 (Matrix [[1 :: int]] [Matrix [[1]] []]) (matrix_fill 1 0 0)) 0 (Suc 0)) 0 =
     Matrix [[1]] [Matrix [[1]] []] \<and>
   fst (multiply_refs transpose_first
          (store2 (Matrix [[1 :: int]] [Matrix [[1]] []]) (matrix_fill 1 0 0)) 0 (Suc 0)) =
     Inr (Matrix [[]] []) \<and>
   snd (multiply_refs transpose_first
          (store2 (Matrix [[1 :: int]] [Matrix [[1]] []]) (matrix_fill 1 0 0)) 0 (Suc 0)) 0 =
     Matrix [[1]] [Matrix [[1]] []]"
  by (simp add: rows_def cols_def matrix_fill_def cache_fresh_def transpose_of_def multiply_def
      multiply_inner.simps multiply_outer.simps multiply_refs_def store2_0 store2_1
      multiply_inner_refs.simps multiply_outer_refs.simps)

subsection \<open>C10: printing\<close>

text \<open>
  C10, as amended. \<^verbatim>\<open>print\<close> appends to the stream, for each row in order, every element
  of the row followed by one space (the last element too) and then a line terminator; for
  a matrix without rows it appends nothing.
\<close>

theorem print_output:
  "print shw m out =
     out @ concat (map (\<lambda>row. concat (map (\<lambda>item. shw item @ '' '') row) @ endl) (data m)) \<and>
   (rows m = 0 \<longrightarrow> print shw m out = out)"
  by (simp add: print_def print_rows_eq rows_def)

theorem print_output_witness:
  "print id (Matrix [[''1'', ''2'', ''3''], [''4'', ''5'', ''6'']] []) [] =
     ''1 2 3 '' @ endl @ ''4 5 6 '' @ endl \<and>
   rows (matrix_default :: string matrix) = 0 \<and>
   print id (matrix_default :: string matrix) ''abc'' = ''abc''"
proof -
  have z: "rows (matrix_default :: string matrix) = 0" by (simp add: rows_def matrix_default_def)
  from print_output[where shw = id and m = "Matrix [[''1'', ''2'', ''3''], [''4'', ''5'', ''6'']] []"
      and out = "[]"]
  have a: "print id (Matrix [[''1'', ''2'', ''3''], [''4'', ''5'', ''6'']] []) [] =
     ''1 2 3 '' @ endl @ ''4 5 6 '' @ endl" by simp
  from print_output[where shw = id and m = "matrix_default :: string matrix" and out = "''abc''"] z
  have b: "print id (matrix_default :: string matrix) ''abc'' = ''abc''" by blast
  from a z b show ?thesis by (intro conjI)
qed

text \<open>
  C10 as the specification states it has the elements separated by a single space, and
  the line terminator after them (\<open>print_spec\<close>). The code writes a space after the last
  element of a row as well.
\<close>

theorem print_trailing_space_counterexample:
  "print id (Matrix [[''1'', ''2'', ''3'']] []) [] = ''1 2 3 '' @ endl \<and>
   print_spec id (Matrix [[''1'', ''2'', ''3'']] []) [] = ''1 2 3'' @ endl \<and>
   print id (Matrix [[''1'', ''2'', ''3'']] []) [] \<noteq> print_spec id (Matrix [[''1'', ''2'', ''3'']] []) []"
  by (simp add: print_def print_spec_def endl_def)

subsection \<open>Concrete scenarios of the specification\<close>

text \<open>The second concrete scenario of the specification, run on the model.\<close>

lemma transpose_example:
  "transpose_m (Matrix [[1, 2, 3], [4, 5, 6 :: int]] []) =
    (Inr (Matrix [[1, 4], [2, 5], [3, 6]] []),
     Matrix [[1, 2, 3], [4, 5, 6]] [Matrix [[1, 4], [2, 5], [3, 6]] []])"
  by (simp add: transpose_m_def matrix_fill_def rows_def cols_def vec_at_def vec_index_def
      assign_def at_mut_def write_row_def transpose_inner.simps transpose_outer.simps)

text \<open>The fourth concrete scenario of the specification, run on the model.\<close>

lemma multiply_example:
  "multiply (Matrix [[1], [2], [3]] []) (Matrix [[1, 2, 3 :: int]] []) =
     (Inr (Matrix [[1, 2, 3], [2, 4, 6], [3, 6, 9]] []),
      Matrix [[1], [2], [3]] [],
      Matrix [[1, 2, 3]] [Matrix [[1], [2], [3]] []])"
  by (simp add: multiply_def multiply_step_def dot_def transpose_m_def matrix_fill_def rows_def
      cols_def vec_at_def vec_index_def assign_def at_mut_def write_row_def
      transpose_inner.simps transpose_outer.simps dot_loop.simps multiply_inner.simps
      multiply_outer.simps)

text \<open>The third concrete scenario: the chained product, evaluated left to right.\<close>

lemma chain_example:
  "fst (operator_mul (Matrix [[1, 2, 3]] []) (Matrix [[1, 2, 3], [4, 5, 6], [7, 8, 9 :: int]] [])) =
     Inr (Matrix [[30, 36, 42]] []) \<and>
   fst (operator_mul (Matrix [[30, 36, 42]] []) (Matrix [[1], [2], [3 :: int]] [])) =
     Inr (Matrix [[228]] [])"
  by (simp add: operator_mul_def multiply_def multiply_step_def dot_def transpose_m_def
      matrix_fill_def rows_def cols_def vec_at_def vec_index_def assign_def at_mut_def
      write_row_def transpose_inner.simps transpose_outer.simps dot_loop.simps
      multiply_inner.simps multiply_outer.simps)

text \<open>A product of a matrix with itself, in both orders of evaluation.\<close>

lemma multiply_same_object_example:
  "multiply_refs m1_first (store2 (Matrix [[1, 2], [3, 4 :: int]] []) (Matrix [] [])) 0 0 =
     (Inr (Matrix [[7, 10], [15, 22]] []),
      (store2 (Matrix [[1, 2], [3, 4]] []) (Matrix [] []))
        (0 := Matrix [[1, 2], [3, 4]] [Matrix [[1, 3], [2, 4]] []])) \<and>
   multiply_refs transpose_first (store2 (Matrix [[1, 2], [3, 4 :: int]] []) (Matrix [] [])) 0 0 =
     (Inr (Matrix [[7, 10], [15, 22]] []),
      (store2 (Matrix [[1, 2], [3, 4]] []) (Matrix [] []))
        (0 := Matrix [[1, 2], [3, 4]] []))"
  by (simp add: multiply_refs_def multiply_step_refs_def dot_assign_def dot_def transpose_m_def
      matrix_fill_def rows_def cols_def vec_at_def vec_index_def assign_def at_mut_def
      write_row_def store2_0 transpose_inner.simps transpose_outer.simps dot_loop.simps
      multiply_inner_refs.simps multiply_outer_refs.simps)

end
